theory Spec2Isabelle
  imports Main "HOL-Library.AList"
begin

section \<open>JavaScript values, objects, arrays and the object store\<close>

text \<open>
  The two source files are JavaScript. A row of a result set is a plain object whose
  properties are the selected columns plus the synthetic \<^verbatim>\<open>_hash\<close>, \<^verbatim>\<open>_index\<close> and
  \<^verbatim>\<open>_added\<close>. Property order is observable (\<^verbatim>\<open>JSON.stringify\<close>, \<^verbatim>\<open>Object.keys\<close>), so an
  object is an association list in insertion order. Numbers are integers here: the
  code only counts and indexes with them.
\<close>

datatype jsval = JUndefined | JNull | JNum int | JStr string

type_synonym obj = "(string \<times> jsval) list"

definition get_prop :: "obj \<Rightarrow> string \<Rightarrow> jsval" where
  "get_prop ob k = (case map_of ob k of None \<Rightarrow> JUndefined | Some v \<Rightarrow> v)"

text \<open>\<^verbatim>\<open>ob[k] = v\<close>: an existing property keeps its place, a new one goes last.\<close>

definition set_prop :: "obj \<Rightarrow> string \<Rightarrow> jsval \<Rightarrow> obj" where
  "set_prop ob k v = AList.update k v ob"

text \<open>\<^verbatim>\<open>delete ob[k]\<close>.\<close>

definition delete_prop :: "obj \<Rightarrow> string \<Rightarrow> obj" where
  "delete_prop ob k = AList.delete k ob"

text \<open>
  Row objects are shared by reference between the old result set, the working copy and
  the diff, and \<^verbatim>\<open>applyDiff\<close> writes to them, so they live in a store. An address is
  a position of the store; allocation appends. \<^verbatim>\<open>_.clone\<close> (lodash, shallow) allocates
  a new object with the same properties.
\<close>

type_synonym addr = nat
type_synonym heap = "obj list"

definition deref :: "heap \<Rightarrow> addr \<Rightarrow> obj" where
  "deref h a = (if a < length h then h ! a else [])"

definition alloc :: "heap \<Rightarrow> obj \<Rightarrow> heap \<times> addr" where
  "alloc h ob = (h @ [ob], length h)"

definition store :: "heap \<Rightarrow> addr \<Rightarrow> obj \<Rightarrow> heap" where
  "store h a ob = h[a := ob]"

text \<open>
  A JavaScript array may have holes and \<^verbatim>\<open>undefined\<close> elements; both are \<open>None\<close>.
  Reading outside the array gives \<^verbatim>\<open>undefined\<close>. Writing at or past the length extends
  the array, leaving holes; writing at a negative index sets a property that is no
  element, so the elements stay as they are. (The bound \<open>2^32 - 1\<close> on array lengths is
  not modelled.)
\<close>

type_synonym 'a jsarray = "'a option list"

definition array_get :: "'a list \<Rightarrow> int \<Rightarrow> 'a option" where
  "array_get xs i = (if 0 \<le> i \<and> nat i < length xs then Some (xs ! nat i) else None)"

definition array_set :: "'a jsarray \<Rightarrow> int \<Rightarrow> 'a option \<Rightarrow> 'a jsarray" where
  "array_set xs i v =
     (if i < 0 then xs
      else if nat i < length xs then xs[nat i := v]
      else xs @ replicate (nat i - length xs) None @ [v])"

text \<open>\<^verbatim>\<open>xs.filter(row => row !== undefined)\<close>: holes are skipped, \<^verbatim>\<open>undefined\<close> dropped.\<close>

definition compact :: "'a jsarray \<Rightarrow> 'a list" where
  "compact xs = List.map_filter (\<lambda>x. x) xs"

text \<open>
  \<^verbatim>\<open>v - 1\<close> for a property value \<open>v\<close>, as an integer; \<open>None\<close> is \<^verbatim>\<open>NaN\<close>. JavaScript turns
  \<^verbatim>\<open>null\<close> into 0 and a string of decimal digits into its number (the empty string
  into 0); \<^verbatim>\<open>undefined\<close> and, in this model of integers, every other string give
  \<^verbatim>\<open>NaN\<close>.
\<close>

primrec digits_value :: "nat \<Rightarrow> string \<Rightarrow> nat option" where
  "digits_value acc [] = Some acc"
| "digits_value acc (c # cs) =
     (if 48 \<le> (of_char c :: nat) \<and> (of_char c :: nat) \<le> 57
      then digits_value (10 * acc + ((of_char c :: nat) - 48)) cs
      else None)"

definition to_number :: "jsval \<Rightarrow> int option" where
  "to_number v =
     (case v of
        JUndefined \<Rightarrow> None
      | JNull \<Rightarrow> Some 0
      | JNum n \<Rightarrow> Some n
      | JStr s \<Rightarrow> map_option int (digits_value 0 s))"

definition minus_one :: "jsval \<Rightarrow> int option" where
  "minus_one v = map_option (\<lambda>n. n - 1) (to_number v)"

text \<open>Exceptions are values: a \<^verbatim>\<open>throw\<close> is \<open>Inl\<close>.\<close>

datatype error = TypeError | Error string

definition bind_err :: "error + 'a \<Rightarrow> ('a \<Rightarrow> error + 'b) \<Rightarrow> error + 'b" where
  "bind_err r f = (case r of Inl e \<Rightarrow> Inl e | Inr x \<Rightarrow> f x)"

text \<open>\<^verbatim>\<open>xs.forEach(f)\<close> over a state; the first exception ends the loop.\<close>

primrec forEach :: "('s \<Rightarrow> 'a \<Rightarrow> error + 's) \<Rightarrow> 'a list \<Rightarrow> 's \<Rightarrow> error + 's" where
  "forEach f [] s = Inr s"
| "forEach f (x # xs) s = bind_err (f s x) (forEach f xs)"

text \<open>\<^verbatim>\<open>xs !== null && xs.forEach(f)\<close>.\<close>

definition forEach_nullable ::
  "('s \<Rightarrow> 'a \<Rightarrow> error + 's) \<Rightarrow> 'a list option \<Rightarrow> 's \<Rightarrow> error + 's" where
  "forEach_nullable f xs s = (case xs of None \<Rightarrow> Inr s | Some ys \<Rightarrow> forEach f ys s)"

section \<open>The diff object and \<^verbatim>\<open>applyDiff\<close> (src/src/common.es6)\<close>

text \<open>
  A diff has four lists, each of which may be \<^verbatim>\<open>null\<close>. The entries of \<^verbatim>\<open>removed\<close>,
  \<^verbatim>\<open>moved\<close> and \<^verbatim>\<open>copied\<close> carry 1-based positions; the entries of \<^verbatim>\<open>added\<close> are row
  objects, written into the result by reference.
\<close>

datatype removed_entry = Removed (r_index: int)
datatype moved_entry = Moved (m_old_index: int) (m_new_index: int)
datatype copied_entry = Copied (c_orig_index: int) (c_new_index: int)

record diff =
  removed :: "removed_entry list option"
  moved :: "moved_entry list option"
  copied :: "copied_entry list option"
  added :: "addr list option"

text \<open>The state of \<^verbatim>\<open>applyDiff\<close>: the store and the working copy \<^verbatim>\<open>newResults\<close>.\<close>

type_synonym apply_state = "heap \<times> addr jsarray"

text \<open>\<^verbatim>\<open>removed => newResults[removed._index - 1] = undefined\<close>\<close>

definition removed_step :: "apply_state \<Rightarrow> removed_entry \<Rightarrow> error + apply_state" where
  "removed_step s r = Inr (fst s, array_set (snd s) (r_index r - 1) None)"

text \<open>\<^verbatim>\<open>moved => { newResults[moved.old_index - 1] = undefined }\<close>\<close>

definition dealloc_step :: "apply_state \<Rightarrow> moved_entry \<Rightarrow> error + apply_state" where
  "dealloc_step s m = Inr (fst s, array_set (snd s) (m_old_index m - 1) None)"

text \<open>
  \<^verbatim>\<open>var copyRow = _.clone(data[copied.orig_index - 1]); copyRow._index = copied.new_index;
  newResults[copied.new_index - 1] = copyRow\<close>.
  Outside \<^verbatim>\<open>data\<close> the clone of \<^verbatim>\<open>undefined\<close> is \<^verbatim>\<open>undefined\<close> and the assignment
  to its property throws a TypeError.
\<close>

definition copied_step :: "addr list \<Rightarrow> apply_state \<Rightarrow> copied_entry \<Rightarrow> error + apply_state" where
  "copied_step data s c =
     (case array_get data (c_orig_index c - 1) of
        None \<Rightarrow> Inl TypeError
      | Some a \<Rightarrow>
          (case alloc (fst s) (set_prop (deref (fst s) a) ''_index'' (JNum (c_new_index c))) of
             (h', copyRow) \<Rightarrow> Inr (h', array_set (snd s) (c_new_index c - 1) (Some copyRow))))"

text \<open>
  \<^verbatim>\<open>var movingRow = data[moved.old_index - 1]; movingRow._index = moved.new_index;
  newResults[moved.new_index - 1] = movingRow\<close>.
  The row is not cloned: the object of the old result set is written to.
\<close>

definition moved_step :: "addr list \<Rightarrow> apply_state \<Rightarrow> moved_entry \<Rightarrow> error + apply_state" where
  "moved_step data s m =
     (case array_get data (m_old_index m - 1) of
        None \<Rightarrow> Inl TypeError
      | Some movingRow \<Rightarrow>
          Inr (store (fst s) movingRow
                 (set_prop (deref (fst s) movingRow) ''_index'' (JNum (m_new_index m))),
               array_set (snd s) (m_new_index m - 1) (Some movingRow)))"

text \<open>\<^verbatim>\<open>added => newResults[added._index - 1] = added\<close>; at \<^verbatim>\<open>NaN\<close> no element is set.\<close>

definition added_step :: "apply_state \<Rightarrow> addr \<Rightarrow> error + apply_state" where
  "added_step s a =
     Inr (fst s,
          (case minus_one (get_prop (deref (fst s) a) ''_index'') of
             None \<Rightarrow> snd s
           | Some i \<Rightarrow> array_set (snd s) i (Some a)))"

text \<open>
  \<^verbatim>\<open>applyDiff(data, diff)\<close>: \<^verbatim>\<open>newResults = data.slice()\<close>, the five loops in the order
  of the source, then the filter. The result is the store and the returned array.
\<close>

definition applyDiff :: "heap \<Rightarrow> addr list \<Rightarrow> diff \<Rightarrow> error + (heap \<times> addr list)" where
  "applyDiff h data d =
     bind_err (forEach_nullable removed_step (removed d) (h, map Some data)) (\<lambda>s1.
     bind_err (forEach_nullable dealloc_step (moved d) s1) (\<lambda>s2.
     bind_err (forEach_nullable (copied_step data) (copied d) s2) (\<lambda>s3.
     bind_err (forEach_nullable (moved_step data) (moved d) s3) (\<lambda>s4.
     bind_err (forEach_nullable added_step (added d) s4) (\<lambda>s5.
     Inr (fst s5, compact (snd s5)))))))"

section \<open>The phases of \<^verbatim>\<open>applyDiff\<close>, as the specification words them\<close>

text \<open>
  The specification describes \<^verbatim>\<open>applyDiff\<close> as six phases over a working copy. They
  are written here as whole-list operations: each write phase is a list of
  (position, value) pairs computed from the old data, the diff and the store, which is
  then written into the working copy. The source's loops are compared with them below.
\<close>

definition list_of :: "'a list option \<Rightarrow> 'a list" where
  "list_of xs = (case xs of None \<Rightarrow> [] | Some ys \<Rightarrow> ys)"

definition write_all :: "(int \<times> 'a option) list \<Rightarrow> 'a jsarray \<Rightarrow> 'a jsarray" where
  "write_all ws xs = foldl (\<lambda>ys w. array_set ys (fst w) (snd w)) xs ws"

text \<open>The element at position \<open>k\<close> of an array, \<open>None\<close> outside it.\<close>

definition slot :: "'a jsarray \<Rightarrow> nat \<Rightarrow> 'a option" where
  "slot xs k = (if k < length xs then xs ! k else None)"

text \<open>Every address of the array is an object of the store.\<close>

definition valid_refs :: "heap \<Rightarrow> addr list \<Rightarrow> bool" where
  "valid_refs h as = (\<forall>a\<in>set as. a < length h)"

text \<open>A 1-based position that lies in \<^verbatim>\<open>data\<close>, and the row there.\<close>

definition in_range :: "'a list \<Rightarrow> int \<Rightarrow> bool" where
  "in_range data i = (1 \<le> i \<and> i \<le> int (length data))"

definition source_row :: "addr list \<Rightarrow> int \<Rightarrow> addr" where
  "source_row data i = data ! nat (i - 1)"

text \<open>
  Every \<^verbatim>\<open>orig_index\<close> and \<^verbatim>\<open>old_index\<close> of the diff names a row of \<^verbatim>\<open>data\<close>; otherwise
  the source dereferences \<^verbatim>\<open>undefined\<close>.
\<close>

definition sources_ok :: "addr list \<Rightarrow> diff \<Rightarrow> bool" where
  "sources_ok data d =
     ((\<forall>c\<in>set (list_of (copied d)). in_range data (c_orig_index c)) \<and>
      (\<forall>m\<in>set (list_of (moved d)). in_range data (m_old_index m)))"

text \<open>Phase 1: null out the positions in \<^verbatim>\<open>removed\<close>.\<close>

definition phase_null_removed :: "diff \<Rightarrow> addr jsarray \<Rightarrow> addr jsarray" where
  "phase_null_removed d nr =
     write_all (map (\<lambda>r. (r_index r - 1, None)) (list_of (removed d))) nr"

text \<open>Phase 2: null out the \<^verbatim>\<open>old_index\<close> positions of \<^verbatim>\<open>moved\<close>.\<close>

definition phase_null_moved :: "diff \<Rightarrow> addr jsarray \<Rightarrow> addr jsarray" where
  "phase_null_moved d nr =
     write_all (map (\<lambda>m. (m_old_index m - 1, None)) (list_of (moved d))) nr"

text \<open>
  Phase 3: for each \<^verbatim>\<open>copied\<close>, a clone of the row at \<^verbatim>\<open>orig_index - 1\<close> of the old data
  as it is in the store \<open>h0\<close> the call started with, its \<^verbatim>\<open>_index\<close> set to \<^verbatim>\<open>new_index\<close>,
  written at \<^verbatim>\<open>new_index - 1\<close>. The clones are new objects at the end of the store.
\<close>

definition clone_rows :: "heap \<Rightarrow> addr list \<Rightarrow> copied_entry list \<Rightarrow> obj list" where
  "clone_rows h0 data cs =
     map (\<lambda>c. set_prop (deref h0 (source_row data (c_orig_index c))) ''_index''
                 (JNum (c_new_index c))) cs"

definition copied_writes :: "nat \<Rightarrow> copied_entry list \<Rightarrow> (int \<times> addr option) list" where
  "copied_writes n cs = map (\<lambda>(a, c). (c_new_index c - 1, Some a)) (enumerate n cs)"

definition phase_write_copied ::
  "heap \<Rightarrow> addr list \<Rightarrow> diff \<Rightarrow> apply_state \<Rightarrow> apply_state" where
  "phase_write_copied h0 data d s =
     (fst s @ clone_rows h0 data (list_of (copied d)),
      write_all (copied_writes (length (fst s)) (list_of (copied d))) (snd s))"

text \<open>
  Phase 4: for each \<^verbatim>\<open>moved\<close>, the row at \<^verbatim>\<open>old_index - 1\<close> of the old data, its
  \<^verbatim>\<open>_index\<close> set to \<^verbatim>\<open>new_index\<close>, written at \<^verbatim>\<open>new_index - 1\<close>.
\<close>

definition moved_heap :: "heap \<Rightarrow> addr list \<Rightarrow> moved_entry list \<Rightarrow> heap" where
  "moved_heap h data ms =
     foldl (\<lambda>h' m. store h' (source_row data (m_old_index m))
                     (set_prop (deref h' (source_row data (m_old_index m))) ''_index''
                        (JNum (m_new_index m)))) h ms"

definition moved_writes :: "addr list \<Rightarrow> moved_entry list \<Rightarrow> (int \<times> addr option) list" where
  "moved_writes data ms =
     map (\<lambda>m. (m_new_index m - 1, Some (source_row data (m_old_index m)))) ms"

definition phase_write_moved :: "addr list \<Rightarrow> diff \<Rightarrow> apply_state \<Rightarrow> apply_state" where
  "phase_write_moved data d s =
     (moved_heap (fst s) data (list_of (moved d)),
      write_all (moved_writes data (list_of (moved d))) (snd s))"

text \<open>Phase 5: each \<^verbatim>\<open>added\<close> row written at its \<^verbatim>\<open>_index - 1\<close>.\<close>

definition added_writes :: "heap \<Rightarrow> addr list \<Rightarrow> (int \<times> addr option) list" where
  "added_writes h as =
     List.map_filter
       (\<lambda>a. map_option (\<lambda>i. (i, Some a)) (minus_one (get_prop (deref h a) ''_index''))) as"

definition phase_write_added :: "diff \<Rightarrow> apply_state \<Rightarrow> apply_state" where
  "phase_write_added d s =
     (fst s, write_all (added_writes (fst s) (list_of (added d))) (snd s))"

text \<open>The six phases in order; phase 6 is \<^const>\<open>compact\<close>.\<close>

definition applyDiff_phases :: "heap \<Rightarrow> addr list \<Rightarrow> diff \<Rightarrow> heap \<times> addr list" where
  "applyDiff_phases h data d =
     (let s2 = (h, phase_null_moved d (phase_null_removed d (map Some data)));
          s3 = phase_write_copied h data d s2;
          s4 = phase_write_moved data d s3;
          s5 = phase_write_added d s4
      in (fst s5, compact (snd s5)))"

text \<open>The rows of \<^verbatim>\<open>data\<close> that some \<^verbatim>\<open>moved\<close> entry names as its source.\<close>

definition moved_sources :: "addr list \<Rightarrow> diff \<Rightarrow> addr set" where
  "moved_sources data d = (\<lambda>m. source_row data (m_old_index m)) ` set (list_of (moved d))"

section \<open>The engine (src/lib/LiveMysql.js)\<close>

text \<open>
  The arguments of \<^verbatim>\<open>select\<close> are dynamically typed and the function tests their
  types, so an argument is a tagged value. A function is known by its tag (the string
  \<^verbatim>\<open>LiveMysqlKeySelector.makeTag\<close> gives for it); an object or an array carries a payload.
\<close>

datatype 'a dyn = DUndefined | DNull | DNum int | DStr string | DFun string | DObj 'a | DArr "'a list"

text \<open>\<^verbatim>\<open>typeof x === 'string'\<close>, \<^verbatim>\<open>typeof x === 'object'\<close> (true of \<^verbatim>\<open>null\<close> and of arrays),
  \<^verbatim>\<open>x instanceof Function\<close>, \<^verbatim>\<open>x instanceof Array\<close>, \<^verbatim>\<open>typeof x === 'number'\<close>.\<close>

definition is_string :: "'a dyn \<Rightarrow> bool" where
  "is_string x = (case x of DStr _ \<Rightarrow> True | _ \<Rightarrow> False)"

definition is_object :: "'a dyn \<Rightarrow> bool" where
  "is_object x = (case x of DNull \<Rightarrow> True | DObj _ \<Rightarrow> True | DArr _ \<Rightarrow> True | _ \<Rightarrow> False)"

definition is_function :: "'a dyn \<Rightarrow> bool" where
  "is_function x = (case x of DFun _ \<Rightarrow> True | _ \<Rightarrow> False)"

definition is_array :: "'a dyn \<Rightarrow> bool" where
  "is_array x = (case x of DArr _ \<Rightarrow> True | _ \<Rightarrow> False)"

definition is_number :: "'a dyn \<Rightarrow> bool" where
  "is_number x = (case x of DNum _ \<Rightarrow> True | _ \<Rightarrow> False)"

definition elements :: "'a dyn \<Rightarrow> 'a list" where
  "elements x = (case x of DArr xs \<Rightarrow> xs | _ \<Rightarrow> [])"

definition string_of :: "'a dyn \<Rightarrow> string" where
  "string_of x = (case x of DStr s \<Rightarrow> s | _ \<Rightarrow> [])"

text \<open>
  A trigger \<^verbatim>\<open>{ database?, table, condition? }\<close>. The engine reads only \<^verbatim>\<open>database\<close> and
  \<^verbatim>\<open>table\<close>.
\<close>

record trigger =
  t_database :: "string option"
  t_table :: string

text \<open>
  \<^verbatim>\<open>triggers[i].database || self.settings.database\<close>: an absent or empty database name is
  falsy, and the engine's default stands in for it. \<open>None\<close> is \<^verbatim>\<open>undefined\<close>.
\<close>

definition trigger_database :: "string option \<Rightarrow> trigger \<Rightarrow> string option" where
  "trigger_database dflt t =
     (case t_database t of
        None \<Rightarrow> dflt
      | Some db \<Rightarrow> if db = [] then dflt else Some db)"

text \<open>
  The schema interest-set \<^verbatim>\<open>_schemaCache\<close>: an object from database names to arrays of
  table names. (Database names that are properties of \<^verbatim>\<open>Object.prototype\<close> are not
  modelled.)
\<close>

type_synonym schema = "(string \<times> string list) list"

text \<open>
  \<^verbatim>\<open>if (!(db in includeSchema)) includeSchema[db] = [table];
  else if (includeSchema[db].indexOf(table) === -1) includeSchema[db].push(table);\<close>
\<close>

definition include_table :: "schema \<Rightarrow> string \<Rightarrow> string \<Rightarrow> schema" where
  "include_table sc db tbl =
     (case map_of sc db of
        None \<Rightarrow> AList.update db [tbl] sc
      | Some ts \<Rightarrow> if tbl \<in> set ts then sc else AList.update db (ts @ [tbl]) sc)"

text \<open>
  The loop of \<^verbatim>\<open>select\<close> over the triggers. It throws at the first trigger without a
  database; the tables of the triggers before it are in the schema cache by then. The
  result is the schema cache as the loop leaves it, and the exception if it threw.
\<close>

primrec schema_loop :: "string option \<Rightarrow> trigger list \<Rightarrow> schema \<Rightarrow> schema \<times> error option" where
  "schema_loop dflt [] sc = (sc, None)"
| "schema_loop dflt (t # ts) sc =
     (case trigger_database dflt t of
        None \<Rightarrow> (sc, Some (Error ''no database selected on trigger''))
      | Some db \<Rightarrow> schema_loop dflt ts (include_table sc db (t_table t)))"

text \<open>
  Modelled from the spec: the query cache and the subscription (lib/QueryCache.js and
  lib/LiveMysqlSelect.js are not among the sources). A cache holds its identity key, its
  \<^verbatim>\<open>minInterval\<close> (\<open>None\<close> is \<^verbatim>\<open>null\<close>) and \<^verbatim>\<open>selects\<close>, the subscriptions using it; a new
  cache has none. A subscription binds a cache to a list of triggers, and creating it
  attaches it to its cache.
\<close>

record QueryCache =
  qc_query :: string
  qc_values :: "jsval list dyn"
  queryCacheKey :: string
  qc_keySelector :: string
  qc_minInterval :: "int option"
  selects :: "nat list"

record LiveMysqlSelect =
  queryCache :: nat
  triggers :: "trigger list"

text \<open>
  The engine. Caches and subscriptions are objects, referred to by their position in
  \<open>caches\<close> and \<open>subs\<close>. \<open>e_select\<close>, \<open>e_queryCache\<close> and \<open>e_schemaCache\<close> are the source's
  \<^verbatim>\<open>_select\<close>, \<^verbatim>\<open>_queryCache\<close> and \<^verbatim>\<open>_schemaCache\<close>. \<open>e_slaveSettings\<close> is the property
  \<^verbatim>\<open>this.slaveSettings\<close> that \<^verbatim>\<open>select\<close> reads: \<open>None\<close> when the object has no such
  property, otherwise its \<^verbatim>\<open>minInterval\<close> when that is a number. \<open>e_paused\<close> holds when
  \<^verbatim>\<open>zongjiSettings.includeSchema\<close> is the empty object \<^verbatim>\<open>pause\<close> put there and not the
  schema cache itself.
\<close>

record settings =
  st_database :: "string option"

record binlog_settings =
  bs_serverId :: "int option"
  bs_minInterval :: "int option"

record engine =
  e_settings :: settings
  e_binlogSettings :: binlog_settings
  e_slaveSettings :: "int option option"
  e_select :: "nat list"
  e_queryCache :: "(string \<times> nat) list"
  e_schemaCache :: schema
  e_paused :: bool
  caches :: "QueryCache list"
  subs :: "LiveMysqlSelect list"

text \<open>
  The constructor, for a \<^verbatim>\<open>binlogSettings\<close> object: it sets \<^verbatim>\<open>settings\<close>,
  \<^verbatim>\<open>binlogSettings\<close>, \<^verbatim>\<open>_select\<close>, \<^verbatim>\<open>_queryCache\<close>, \<^verbatim>\<open>_schemaCache\<close> and
  \<^verbatim>\<open>zongjiSettings\<close> (whose \<^verbatim>\<open>includeSchema\<close> is the schema cache). No line of the file
  assigns \<^verbatim>\<open>slaveSettings\<close>.
\<close>

definition LiveMysql :: "settings \<Rightarrow> binlog_settings \<Rightarrow> engine" where
  "LiveMysql st bs =
     \<lparr>e_settings = st, e_binlogSettings = bs, e_slaveSettings = None, e_select = [],
      e_queryCache = [], e_schemaCache = [], e_paused = False, caches = [], subs = []\<rparr>"

text \<open>
  \<^verbatim>\<open>var newSelect = new LiveMysqlSelect(queryCache, triggers, this);
  self._select.push(newSelect); return newSelect;\<close>
\<close>

definition new_select :: "engine \<Rightarrow> nat \<Rightarrow> trigger list \<Rightarrow> engine \<times> (error + nat)" where
  "new_select self qc trigs =
     (let newSelect = length (subs self);
          cache = caches self ! qc
      in (self\<lparr>subs := subs self @ [\<lparr>queryCache = qc, triggers = trigs\<rparr>],
               caches := (caches self)[qc := cache\<lparr>selects := selects cache @ [newSelect]\<rparr>],
               e_select := e_select self @ [newSelect]\<rparr>,
          Inr newSelect))"

text \<open>
  \<^verbatim>\<open>if (minInterval === undefined) { if (typeof this.slaveSettings.minInterval === 'number')
  minInterval = this.slaveSettings.minInterval; else minInterval = null; }\<close>
  Reading a property of \<^verbatim>\<open>undefined\<close> throws a TypeError.
\<close>

definition cache_minInterval :: "engine \<Rightarrow> unit dyn \<Rightarrow> error + int option" where
  "cache_minInterval self minInterval =
     (case minInterval of
        DNum n \<Rightarrow> Inr (Some n)
      | _ \<Rightarrow> (case e_slaveSettings self of
                None \<Rightarrow> Inl TypeError
              | Some mi \<Rightarrow> Inr mi))"

text \<open>
  \<^verbatim>\<open>LiveMysql.prototype.select\<close>, in two parts: \<open>register\<close> is the body of the function
  from the schema loop on (lines 149 to 190), \<open>select\<close> the five type checks before it
  and then \<open>register\<close>. The result is the engine after the call and either the
  exception thrown or the new subscription. \<open>stringify q v k\<close> stands for
  \<^verbatim>\<open>EJSON.stringify({query: q, values: v, keySelector: k}, {canonical: true})\<close>, which the
  file takes from its environment.
\<close>

definition register ::
  "(string \<Rightarrow> jsval list dyn \<Rightarrow> string \<Rightarrow> string) \<Rightarrow> engine \<Rightarrow>
   unit dyn \<Rightarrow> jsval list dyn \<Rightarrow> unit dyn \<Rightarrow> trigger dyn \<Rightarrow> unit dyn \<Rightarrow> engine \<times> (error + nat)" where
  "register stringify self query values keySelector trigs minInterval =
     (case schema_loop (st_database (e_settings self)) (elements trigs) (e_schemaCache self) of
        (sc, Some e) \<Rightarrow> (self\<lparr>e_schemaCache := sc\<rparr>, Inl e)
      | (sc, None) \<Rightarrow>
          (let self1 = self\<lparr>e_schemaCache := sc\<rparr>;
               values1 = (if values = DNull then DUndefined else values);
               queryCacheKey =
                 stringify (string_of query) values1
                   (case keySelector of DFun tag \<Rightarrow> tag | _ \<Rightarrow> [])
           in (case map_of (e_queryCache self1) queryCacheKey of
                 Some qc \<Rightarrow> new_select self1 qc (elements trigs)
               | None \<Rightarrow>
                   (case cache_minInterval self1 minInterval of
                      Inl e \<Rightarrow> (self1, Inl e)
                    | Inr mi \<Rightarrow>
                        new_select
                          (self1\<lparr>caches := caches self1 @
                                    [\<lparr>qc_query = string_of query, qc_values = values1,
                                      queryCacheKey = queryCacheKey,
                                      qc_keySelector =
                                        (case keySelector of DFun tag \<Rightarrow> tag | _ \<Rightarrow> []),
                                      qc_minInterval = mi, selects = []\<rparr>],
                                 e_queryCache :=
                                   AList.update queryCacheKey (length (caches self1))
                                     (e_queryCache self1)\<rparr>)
                          (length (caches self1)) (elements trigs)))))"

definition select ::
  "(string \<Rightarrow> jsval list dyn \<Rightarrow> string \<Rightarrow> string) \<Rightarrow> engine \<Rightarrow>
   unit dyn \<Rightarrow> jsval list dyn \<Rightarrow> unit dyn \<Rightarrow> trigger dyn \<Rightarrow> unit dyn \<Rightarrow> engine \<times> (error + nat)" where
  "select stringify self query values keySelector trigs minInterval =
     (if \<not> is_string query then (self, Inl (Error ''query must be a string''))
      else if \<not> (is_object values \<or> values = DUndefined)
        then (self, Inl (Error ''values must be an object, null, or undefined''))
      else if \<not> is_function keySelector then (self, Inl (Error ''keySelector required''))
      else if \<not> is_array trigs \<or> length (elements trigs) = 0
        then (self, Inl (Error ''triggers array required''))
      else if \<not> (is_number minInterval \<or> minInterval = DUndefined)
        then (self, Inl (Error ''minInterval must be a number or undefined''))
      else register stringify self query values keySelector trigs minInterval)"

text \<open>
  \<^verbatim>\<open>LiveMysql.prototype._removeSelect\<close>: \<^verbatim>\<open>splice(index, 1)\<close> at the first position of
  the subscription in \<^verbatim>\<open>_select\<close>, then in the \<^verbatim>\<open>selects\<close> of its cache; the cache leaves
  the registry when its \<^verbatim>\<open>selects\<close> becomes empty. The schema cache is not touched.
\<close>

definition removeSelect :: "engine \<Rightarrow> nat \<Rightarrow> engine \<times> bool" where
  "removeSelect self sel =
     (if sel \<notin> set (e_select self) then (self, False)
      else
        (let self1 = self\<lparr>e_select := remove1 sel (e_select self)\<rparr>;
             qc = queryCache (subs self ! sel);
             cache = caches self ! qc
         in if sel \<notin> set (selects cache) then (self1, True)
            else
              (let cache1 = cache\<lparr>selects := remove1 sel (selects cache)\<rparr>;
                   self2 = self1\<lparr>caches := (caches self1)[qc := cache1]\<rparr>
               in if length (selects cache1) = 0
                  then (self2\<lparr>e_queryCache :=
                                AList.delete (queryCacheKey cache1) (e_queryCache self2)\<rparr>, True)
                  else (self2, True))))"

text \<open>\<^verbatim>\<open>pause\<close> and \<^verbatim>\<open>resume\<close>, and the interest-set the backend is given.\<close>

definition pause :: "engine \<Rightarrow> engine" where
  "pause self = self\<lparr>e_paused := True\<rparr>"

definition resume :: "engine \<Rightarrow> engine" where
  "resume self = self\<lparr>e_paused := False\<rparr>"


text \<open>The calls a client can make, and the engine after a sequence of them.\<close>

datatype call =
    Select "unit dyn" "jsval list dyn" "unit dyn" "trigger dyn" "unit dyn"
  | RemoveSelect nat
  | Pause
  | Resume

fun step :: "(string \<Rightarrow> jsval list dyn \<Rightarrow> string \<Rightarrow> string) \<Rightarrow> engine \<Rightarrow> call \<Rightarrow> engine" where
  "step stringify self (Select q v k t m) = fst (select stringify self q v k t m)"
| "step stringify self (RemoveSelect sel) = fst (removeSelect self sel)"
| "step stringify self Pause = pause self"
| "step stringify self Resume = resume self"

definition run :: "(string \<Rightarrow> jsval list dyn \<Rightarrow> string \<Rightarrow> string) \<Rightarrow> engine \<Rightarrow> call list \<Rightarrow> engine" where
  "run stringify self cs = foldl (step stringify) self cs"


definition trigger_pairs :: "string option \<Rightarrow> trigger list \<Rightarrow> (string \<times> string) set" where
  "trigger_pairs dflt ts = {(db, tbl). \<exists>t\<in>set ts. trigger_database dflt t = Some db \<and> t_table t = tbl}"

definition live_pairs :: "engine \<Rightarrow> (string \<times> string) set" where
  "live_pairs self =
     (\<Union>sel\<in>set (e_select self).
        trigger_pairs (st_database (e_settings self)) (triggers (subs self ! sel)))"

text \<open>The arguments pass the five type checks at the head of \<^verbatim>\<open>select\<close>.\<close>

definition types_ok ::
  "unit dyn \<Rightarrow> jsval list dyn \<Rightarrow> unit dyn \<Rightarrow> trigger dyn \<Rightarrow> unit dyn \<Rightarrow> bool" where
  "types_ok query values keySelector trigs minInterval =
     (is_string query \<and> (is_object values \<or> values = DUndefined) \<and> is_function keySelector \<and>
      is_array trigs \<and> elements trigs \<noteq> [] \<and> (is_number minInterval \<or> minInterval = DUndefined))"


section \<open>The differ, as the specification describes it\<close>

text \<open>
  The position of the first occurrence of a value in a list (the length of the list when
  it does not occur), and JavaScript's \<^verbatim>\<open>indexOf\<close>, which gives -1 then.
\<close>

primrec first_index :: "'a list \<Rightarrow> 'a \<Rightarrow> nat" where
  "first_index [] x = 0"
| "first_index (y # ys) x = (if x = y then 0 else Suc (first_index ys x))"

definition indexOf :: "'a list \<Rightarrow> 'a \<Rightarrow> int" where
  "indexOf xs x = (if x \<in> set xs then int (first_index xs x) else - 1)"

text \<open>\<^verbatim>\<open>row._hash\<close> of a row of the store.\<close>

definition row_hash :: "heap \<Rightarrow> addr \<Rightarrow> jsval" where
  "row_hash h a = get_prop (deref h a) ''_hash''"

text \<open>
  Modelled from the spec: the Differ of section 4.1 (\<^verbatim>\<open>collectionDiff\<close>; its file,
  src/collectionDiff, is not among the sources). Its input is the old hashes in order and
  the new rows; positions are 1-based.
  \<^item> \<^verbatim>\<open>added\<close>: the rows whose hash did not appear in the old hashes.
  \<^item> \<^verbatim>\<open>removed\<close>: the positions of the old hashes whose hash is absent from the new rows.
  \<^item> \<^verbatim>\<open>moved\<close>: for a hash present in both but at different positions, its old and its
    new position, matched on the first occurrence in each sequence.
  \<^item> \<^verbatim>\<open>copied\<close>: when a hash occurs more times in the new rows than in the old hashes,
    the occurrences beyond the old count, each a copy of the first old occurrence.
  Each list is in ascending order of the new position (of the old one for \<^verbatim>\<open>removed\<close>).
  The result is \<^emph>\<open>no change\<close> (\<^verbatim>\<open>null\<close>, here \<open>None\<close>) exactly when all four lists are empty.
\<close>

definition is_removed :: "'a list \<Rightarrow> 'a list \<Rightarrow> nat \<Rightarrow> bool" where
  "is_removed old new i = (old ! i \<notin> set new)"

definition is_moved :: "'a list \<Rightarrow> 'a list \<Rightarrow> nat \<Rightarrow> bool" where
  "is_moved old new j =
     (new ! j \<in> set old \<and> first_index new (new ! j) = j \<and> first_index old (new ! j) \<noteq> j)"

definition is_copied :: "'a list \<Rightarrow> 'a list \<Rightarrow> nat \<Rightarrow> bool" where
  "is_copied old new j =
     (new ! j \<in> set old \<and> count_list old (new ! j) \<le> count_list (take j new) (new ! j))"

definition is_added :: "'a list \<Rightarrow> 'a list \<Rightarrow> nat \<Rightarrow> bool" where
  "is_added old new j = (new ! j \<notin> set old)"

definition diff_removed :: "jsval list \<Rightarrow> jsval list \<Rightarrow> removed_entry list" where
  "diff_removed old new =
     map (\<lambda>i. Removed (int i + 1)) (filter (is_removed old new) [0..<length old])"

definition diff_moved :: "jsval list \<Rightarrow> jsval list \<Rightarrow> moved_entry list" where
  "diff_moved old new =
     map (\<lambda>j. Moved (int (first_index old (new ! j)) + 1) (int j + 1))
       (filter (is_moved old new) [0..<length new])"

definition diff_copied :: "jsval list \<Rightarrow> jsval list \<Rightarrow> copied_entry list" where
  "diff_copied old new =
     map (\<lambda>j. Copied (int (first_index old (new ! j)) + 1) (int j + 1))
       (filter (is_copied old new) [0..<length new])"

definition diff_added :: "jsval list \<Rightarrow> jsval list \<Rightarrow> addr list \<Rightarrow> addr list" where
  "diff_added old new rows = map (\<lambda>j. rows ! j) (filter (is_added old new) [0..<length new])"

definition diff_lists :: "jsval list \<Rightarrow> jsval list \<Rightarrow> addr list \<Rightarrow> diff" where
  "diff_lists oldHashes newHashes newRows =
     \<lparr>removed = Some (diff_removed oldHashes newHashes),
      moved = Some (diff_moved oldHashes newHashes),
      copied = Some (diff_copied oldHashes newHashes),
      added = Some (diff_added oldHashes newHashes newRows)\<rparr>"

definition collectionDiff :: "heap \<Rightarrow> jsval list \<Rightarrow> addr list \<Rightarrow> diff option" where
  "collectionDiff h oldHashes newRows =
     (let d = diff_lists oldHashes (map (row_hash h) newRows) newRows
      in if removed d = Some [] \<and> moved d = Some [] \<and> copied d = Some [] \<and> added d = Some []
         then None else Some d)"

section \<open>\<^verbatim>\<open>getResultSetDiff\<close>, \<^verbatim>\<open>flattenNotifications\<close> and \<^verbatim>\<open>getDiffFromSupplied\<close> (src/src/common.es6)\<close>

text \<open>
  The database is a parameter: \<open>client query oldHashes params\<close> is what \<^verbatim>\<open>performQuery\<close>
  gives for the statement that \<^verbatim>\<open>getResultSetDiff\<close> builds from the query and the old
  hashes, the rows of the result or the error of a rejected promise. The rows are new
  objects of the store.
\<close>

type_synonym client = "string \<Rightarrow> jsval list \<Rightarrow> jsval list \<Rightarrow> error + obj list"

definition alloc_all :: "heap \<Rightarrow> obj list \<Rightarrow> heap \<times> addr list" where
  "alloc_all h rows = (h @ rows, [length h..<length h + length rows])"

text \<open>The value of an \<^verbatim>\<open>async\<close> function that resolved: the store, and \<open>None\<close> for \<^verbatim>\<open>null\<close>
  or the object \<^verbatim>\<open>{ diff, data }\<close>.\<close>

type_synonym diff_result = "heap \<times> (diff \<times> addr list) option"

definition getResultSetDiff ::
  "client \<Rightarrow> heap \<Rightarrow> addr list \<Rightarrow> string \<Rightarrow> jsval list \<Rightarrow> error + diff_result" where
  "getResultSetDiff client h currentData query params =
     (let oldHashes = map (row_hash h) currentData
      in bind_err (client query oldHashes params) (\<lambda>rows.
           (case alloc_all h rows of
              (h1, result_rows) \<Rightarrow>
                (case collectionDiff h1 oldHashes result_rows of
                   None \<Rightarrow> Inr (h1, None)
                 | Some d \<Rightarrow>
                     bind_err (applyDiff h1 currentData d) (\<lambda>r.
                       Inr (fst r, Some (d, snd r)))))))"

text \<open>
  A NOTIFY payload \<^verbatim>\<open>{ op, data }\<close> or \<^verbatim>\<open>{ op, new_data, old_data }\<close>; an absent array is
  \<open>None\<close>.
\<close>

record payload =
  p_op :: jsval
  p_data :: "obj list option"
  p_new_data :: "obj list option"
  p_old_data :: "obj list option"

definition payload_get :: "payload \<Rightarrow> string \<Rightarrow> obj list option" where
  "payload_get p key =
     (if key = ''data'' then p_data p
      else if key = ''new_data'' then p_new_data p
      else if key = ''old_data'' then p_old_data p
      else None)"

text \<open>
  \<^verbatim>\<open>let data = _.clone(payload[key][0]); data._op = payload.op; data._key = key;
  data._index = index; out.push(data)\<close>.
  An absent array, and an empty one (the clone of \<^verbatim>\<open>undefined\<close> is \<^verbatim>\<open>undefined\<close>), make the
  property access throw a TypeError.
\<close>

definition pushItem :: "obj list \<Rightarrow> payload \<Rightarrow> string \<Rightarrow> int \<Rightarrow> error + obj list" where
  "pushItem out p key index =
     (case payload_get p key of
        None \<Rightarrow> Inl TypeError
      | Some [] \<Rightarrow> Inl TypeError
      | Some (row # _) \<Rightarrow>
          Inr (out @ [set_prop (set_prop (set_prop row ''_op'' (p_op p)) ''_key'' (JStr key))
                        ''_index'' (JNum index)]))"

primrec flatten_from :: "int \<Rightarrow> payload list \<Rightarrow> obj list \<Rightarrow> error + obj list" where
  "flatten_from index [] out = Inr out"
| "flatten_from index (p # ps) out =
     bind_err
       (if p_op p = JStr ''UPDATE''
        then bind_err (pushItem out p ''new_data'' index)
               (\<lambda>out1. pushItem out1 p ''old_data'' index)
        else pushItem out p ''data'' index)
       (flatten_from (index + 1) ps)"

definition flattenNotifications :: "payload list \<Rightarrow> error + obj list" where
  "flattenNotifications notifications = flatten_from 0 notifications []"

text \<open>
  The parsed query, as far as \<^verbatim>\<open>getDiffFromSupplied\<close> reads it: the select list (a
  \<^verbatim>\<open>Star\<close>, or a field with its column and an optional output name), the orderings (column
  and direction) when there is an \<^verbatim>\<open>ORDER BY\<close>, and the value of \<^verbatim>\<open>LIMIT\<close> when there is one.
\<close>

datatype field = Star | Field (f_value: string) (f_name: "string option")

record ordering =
  o_value :: string
  o_direction :: string

record parsed =
  q_fields :: "field list"
  q_order :: "ordering list option"
  q_limit :: "int option"

text \<open>
  \<^verbatim>\<open>columnsSelected[item.field.value] = item.name ? item.name.value : item.field.value\<close>
  for each item of the select list. A \<^verbatim>\<open>Star\<close> has no \<^verbatim>\<open>field\<close>, so it throws a TypeError
  here. (Column names that are array indices, which \<^verbatim>\<open>Object.keys\<close> would list first, are
  not modelled.)
\<close>

definition column_step :: "(string \<times> string) list \<Rightarrow> field \<Rightarrow> error + (string \<times> string) list" where
  "column_step columnsSelected item =
     (case item of
        Star \<Rightarrow> Inl TypeError
      | Field v n \<Rightarrow> Inr (AList.update v (case n of Some a \<Rightarrow> a | None \<Rightarrow> v) columnsSelected))"

text \<open>\<^verbatim>\<open>for (let column of Object.keys(columnsSelected))
  reformedRow[columnsSelected[column]] = cleanRow[column]\<close>\<close>

definition reform_row :: "(string \<times> string) list \<Rightarrow> obj \<Rightarrow> obj" where
  "reform_row columnsSelected cleanRow =
     foldl (\<lambda>reformedRow c. set_prop reformedRow (snd c) (get_prop cleanRow (fst c)))
       [] columnsSelected"

text \<open>
  The clean row of a matched row: a clone without \<^verbatim>\<open>_op\<close>, \<^verbatim>\<open>_key\<close> and \<^verbatim>\<open>_index\<close>,
  reduced to the selected columns unless the select list is a single \<^verbatim>\<open>Star\<close>.
\<close>

definition clean_row :: "field list \<Rightarrow> obj \<Rightarrow> error + obj" where
  "clean_row flds matchRow =
     (let cleanRow = delete_prop (delete_prop (delete_prop matchRow ''_op'') ''_key'') ''_index''
      in if \<not> (length flds = 1 \<and> flds ! 0 = Star)
         then bind_err (forEach column_step flds [])
                (\<lambda>columnsSelected. Inr (reform_row columnsSelected cleanRow))
         else Inr cleanRow)"

text \<open>
  The body of the loop over the matched rows. Its state is the store, \<^verbatim>\<open>newData\<close> and
  \<^verbatim>\<open>hasDelete\<close>. \<open>md5\<close> stands for \<^verbatim>\<open>md5.digest_s(JSON.stringify(cleanRow))\<close>.
\<close>

type_synonym supplied_state = "heap \<times> addr jsarray \<times> bool"

definition is_delete :: "obj \<Rightarrow> bool" where
  "is_delete matchRow =
     (get_prop matchRow ''_op'' = JStr ''DELETE'' \<or>
      (get_prop matchRow ''_op'' = JStr ''UPDATE'' \<and>
       get_prop matchRow ''_key'' = JStr ''old_data''))"

definition is_insert :: "obj \<Rightarrow> bool" where
  "is_insert matchRow =
     (get_prop matchRow ''_op'' = JStr ''INSERT'' \<or>
      (get_prop matchRow ''_op'' = JStr ''UPDATE'' \<and>
       get_prop matchRow ''_key'' = JStr ''new_data''))"

definition matched_step ::
  "(obj \<Rightarrow> string) \<Rightarrow> field list \<Rightarrow> jsval list \<Rightarrow> supplied_state \<Rightarrow> obj \<Rightarrow>
   error + supplied_state" where
  "matched_step md5 flds oldHashes s matchRow =
     bind_err (clean_row flds matchRow) (\<lambda>cleanRow0.
       (let h = fst s; newData = fst (snd s); hasDelete = snd (snd s);
            cleanRow = set_prop cleanRow0 ''_hash'' (JStr (md5 cleanRow0));
            curIndex = indexOf oldHashes (get_prop cleanRow ''_hash'');
            deletes = (curIndex \<noteq> - 1 \<and> is_delete matchRow);
            newData1 = (if deletes then array_set newData curIndex None else newData);
            hasDelete1 = (if deletes then True else hasDelete)
        in if is_insert matchRow
           then (case alloc h (set_prop cleanRow ''_added'' (JNum 1)) of
                   (h1, a) \<Rightarrow> Inr (h1, newData1 @ [Some a], hasDelete1))
           else Inr (h, newData1, hasDelete1)))"

text \<open>
  \<^verbatim>\<open>_.sortByOrder(newData, sortProps, sortOrders)\<close> (lodash 3): a stable sort by the listed
  properties, each ascending when its order is \<^verbatim>\<open>true\<close> and descending otherwise.
  \<open>compareAscending\<close> stands for lodash's comparison of two property values.
\<close>

fun compareMultiple :: "(jsval \<Rightarrow> jsval \<Rightarrow> int) \<Rightarrow> jsval list \<Rightarrow> jsval list \<Rightarrow> bool list \<Rightarrow> int" where
  "compareMultiple cmp (a # as) (b # bs) orders =
     (if cmp a b \<noteq> 0
      then (case orders of [] \<Rightarrow> cmp a b | asc # _ \<Rightarrow> if asc then cmp a b else - cmp a b)
      else compareMultiple cmp as bs (tl orders))"
| "compareMultiple cmp _ _ orders = 0"

primrec insert_sorted :: "('a \<Rightarrow> 'a \<Rightarrow> int) \<Rightarrow> 'a \<Rightarrow> 'a list \<Rightarrow> 'a list" where
  "insert_sorted c x [] = [x]"
| "insert_sorted c x (y # ys) = (if c x y < 0 then x # y # ys else y # insert_sorted c x ys)"

definition sortByOrder ::
  "(jsval \<Rightarrow> jsval \<Rightarrow> int) \<Rightarrow> heap \<Rightarrow> addr list \<Rightarrow> string list \<Rightarrow> bool list \<Rightarrow> addr list" where
  "sortByOrder compareAscending h newData sortProps sortOrders =
     foldl (\<lambda>sorted a.
              insert_sorted
                (\<lambda>x y. compareMultiple compareAscending
                          (map (get_prop (deref h x)) sortProps)
                          (map (get_prop (deref h y)) sortProps) sortOrders)
                a sorted)
       [] newData"

text \<open>\<^verbatim>\<open>direction.toUpperCase()\<close>, on the ASCII letters.\<close>

definition toUpperCase :: "string \<Rightarrow> string" where
  "toUpperCase s =
     map (\<lambda>c. if 97 \<le> (of_char c :: nat) \<and> (of_char c :: nat) \<le> 122
               then char_of ((of_char c :: nat) - 32) else c) s"

text \<open>\<^verbatim>\<open>xs.slice(0, n)\<close>; a negative \<open>n\<close> counts from the end.\<close>

definition slice0 :: "'a list \<Rightarrow> int \<Rightarrow> 'a list" where
  "slice0 xs n = (if 0 \<le> n then take (nat n) xs else take (length xs - nat (- n)) xs)"

text \<open>\<^verbatim>\<open>for (let index of _.range(newData.length)) newData[index]._index = index + 1\<close>\<close>

definition fix_indexes :: "heap \<Rightarrow> addr list \<Rightarrow> heap" where
  "fix_indexes h newData =
     foldl (\<lambda>h1 index.
              store h1 (newData ! index)
                (set_prop (deref h1 (newData ! index)) ''_index'' (JNum (int index + 1))))
       h [0..<length newData]"

text \<open>
  \<^verbatim>\<open>getDiffFromSupplied\<close>. \<open>matchRows\<close> stands for src/matchRowsToParsedQuery, which is not
  among the sources; it is a parameter, and may throw.
\<close>

definition getDiffFromSupplied ::
  "(obj \<Rightarrow> string) \<Rightarrow> (jsval \<Rightarrow> jsval \<Rightarrow> int) \<Rightarrow>
   (obj list \<Rightarrow> parsed \<Rightarrow> jsval list \<Rightarrow> error + obj list) \<Rightarrow>
   client \<Rightarrow> heap \<Rightarrow> addr list \<Rightarrow> payload list \<Rightarrow> string \<Rightarrow> parsed \<Rightarrow> jsval list \<Rightarrow>
   error + diff_result" where
  "getDiffFromSupplied md5 compareAscending matchRows client h currentData notifications
     query prsd params =
     bind_err (flattenNotifications notifications) (\<lambda>allRows.
     bind_err (matchRows allRows prsd params) (\<lambda>matched.
       if length matched = 0 then Inr (h, None)
       else
         (let oldHashes = map (row_hash h) currentData
          in bind_err
               (forEach (matched_step md5 (q_fields prsd) oldHashes) matched
                  (h, map Some currentData, False))
               (\<lambda>s.
                  (let h1 = fst s; newData = fst (snd s); hasDelete = snd (snd s)
                   in if hasDelete = True \<and> q_limit prsd \<noteq> None \<and>
                         q_limit prsd = Some (int (length currentData))
                      then getResultSetDiff client h1 currentData query params
                      else
                        (let newData1 = compact newData;
                             newData2 =
                               (case q_order prsd of
                                  None \<Rightarrow> newData1
                                | Some orderings \<Rightarrow>
                                    sortByOrder compareAscending h1 newData1
                                      (map o_value orderings)
                                      (map (\<lambda>ordering.
                                              toUpperCase (o_direction ordering) = ''ASC'')
                                         orderings));
                             newData3 =
                               (case q_limit prsd of
                                  None \<Rightarrow> newData2
                                | Some n \<Rightarrow> slice0 newData2 n);
                             h2 = fix_indexes h1 newData3
                         in (case collectionDiff h2 oldHashes newData3 of
                               None \<Rightarrow> Inr (h2, None)
                             | Some d \<Rightarrow> Inr (h2, Some (d, newData3)))))))))"

section \<open>Notions used to state the claims on result sets and payloads\<close>

text \<open>A payload cut down to the first row of each of its arrays.\<close>

definition first_row_only :: "payload \<Rightarrow> payload" where
  "first_row_only p =
     p\<lparr>p_data := map_option (take 1) (p_data p),
       p_new_data := map_option (take 1) (p_new_data p),
       p_old_data := map_option (take 1) (p_old_data p)\<rparr>"

text \<open>
  A matched row causes a deletion: it is a DELETE, or the \<^verbatim>\<open>old_data\<close> of an UPDATE, and
  the hash of its clean row is found in the current data.
\<close>

definition causes_deletion :: "(obj \<Rightarrow> string) \<Rightarrow> field list \<Rightarrow> jsval list \<Rightarrow> obj \<Rightarrow> bool" where
  "causes_deletion md5 flds oldHashes matchRow =
     (case clean_row flds matchRow of
        Inl e \<Rightarrow> False
      | Inr cleanRow \<Rightarrow> is_delete matchRow \<and> JStr (md5 cleanRow) \<in> set oldHashes)"

text \<open>The select list is one that \<^const>\<open>clean_row\<close> does not throw on.\<close>

definition columns_ok :: "field list \<Rightarrow> bool" where
  "columns_ok flds =
     ((length flds = 1 \<and> flds ! 0 = Star) \<or>
      (case forEach column_step flds [] of Inl e \<Rightarrow> False | Inr cs \<Rightarrow> True))"

text \<open>The \<^verbatim>\<open>_index\<close> fields of the rows are 1, 2, ... in the order of the array.\<close>

definition indices_ok :: "heap \<Rightarrow> addr list \<Rightarrow> bool" where
  "indices_ok h data =
     (\<forall>i<length data. get_prop (deref h (data ! i)) ''_index'' = JNum (int i + 1))"

text \<open>
  A position of the new rows whose hash is in the old hashes, first occurs there in the
  new rows, and is at the same position in the old hashes: the differ lists nothing for
  it, and \<^verbatim>\<open>applyDiff\<close> keeps the old row.
\<close>

definition is_kept :: "'a list \<Rightarrow> 'a list \<Rightarrow> nat \<Rightarrow> bool" where
  "is_kept old new j =
     (new ! j \<in> set old \<and> first_index new (new ! j) = j \<and> first_index old (new ! j) = j)"

text \<open>
  The row that belongs at position \<open>j\<close> of the new result set, rebuilt from the old rows
  and the added rows: the new row itself when its hash is new, the old row when it is
  kept, and otherwise the first old row with its hash, \<^verbatim>\<open>_index\<close> set to \<open>j + 1\<close>.
\<close>

definition rebuilt :: "heap \<Rightarrow> addr list \<Rightarrow> addr list \<Rightarrow> nat \<Rightarrow> obj" where
  "rebuilt h old new j =
     (if is_added (map (row_hash h) old) (map (row_hash h) new) j then deref h (new ! j)
      else if is_kept (map (row_hash h) old) (map (row_hash h) new) j then deref h (old ! j)
      else set_prop
             (deref h (old ! first_index (map (row_hash h) old) (map (row_hash h) new ! j)))
             ''_index'' (JNum (int j + 1)))"

text \<open>
  The rows whose hash is not among the old hashes carry their position as \<^verbatim>\<open>_index\<close>
  (the \<^verbatim>\<open>ROW_NUMBER()\<close> of the query of \<^verbatim>\<open>getResultSetDiff\<close>).
\<close>

definition added_indexed :: "heap \<Rightarrow> addr list \<Rightarrow> addr list \<Rightarrow> bool" where
  "added_indexed h old new =
     (\<forall>j<length new. is_added (map (row_hash h) old) (map (row_hash h) new) j \<longrightarrow>
        get_prop (deref h (new ! j)) ''_index'' = JNum (int j + 1))"


text \<open>
  The store and the working copy at the end of the write phases of \<^verbatim>\<open>applyDiff\<close>, when the
  diff is the differ's for the old rows and the new rows, written out position by
  position.
\<close>

definition diff_store :: "heap \<Rightarrow> addr list \<Rightarrow> addr list \<Rightarrow> heap" where
  "diff_store h old new =
     moved_heap
       (h @ clone_rows h old (diff_copied (map (row_hash h) old) (map (row_hash h) new)))
       old (diff_moved (map (row_hash h) old) (map (row_hash h) new))"

definition copied_positions :: "heap \<Rightarrow> addr list \<Rightarrow> addr list \<Rightarrow> nat list" where
  "copied_positions h old new =
     filter (is_copied (map (row_hash h) old) (map (row_hash h) new)) [0..<length new]"

definition diff_slots :: "heap \<Rightarrow> addr list \<Rightarrow> addr list \<Rightarrow> addr jsarray" where
  "diff_slots h old new =
     write_all
       (map (\<lambda>j. (int j, Some (new ! j)))
          (filter (is_added (map (row_hash h) old) (map (row_hash h) new)) [0..<length new]))
     (write_all
       (map (\<lambda>j. (int j,
                   Some (old ! first_index (map (row_hash h) old) (map (row_hash h) new ! j))))
          (filter (is_moved (map (row_hash h) old) (map (row_hash h) new)) [0..<length new]))
     (write_all
       (map (\<lambda>j. (int j, Some (length h + first_index (copied_positions h old new) j)))
          (copied_positions h old new))
     (write_all
       (map (\<lambda>j. (int (first_index (map (row_hash h) old) (map (row_hash h) new ! j)), None))
          (filter (is_moved (map (row_hash h) old) (map (row_hash h) new)) [0..<length new]))
     (write_all
       (map (\<lambda>i. (int i, None))
          (filter (is_removed (map (row_hash h) old) (map (row_hash h) new)) [0..<length old]))
       (map Some old)))))"

text \<open>
  The call of \<^verbatim>\<open>getDiffFromSupplied\<close> takes the refusal branch: some matched row causes a
  deletion and the LIMIT equals the length of the current data.
\<close>

definition refuses ::
  "(obj \<Rightarrow> string) \<Rightarrow> (obj list \<Rightarrow> parsed \<Rightarrow> jsval list \<Rightarrow> error + obj list) \<Rightarrow>
   heap \<Rightarrow> addr list \<Rightarrow> payload list \<Rightarrow> parsed \<Rightarrow> jsval list \<Rightarrow> bool" where
  "refuses md5 matchRows h currentData notifications prsd params =
     (case flattenNotifications notifications of
        Inl e \<Rightarrow> False
      | Inr allRows \<Rightarrow>
          (case matchRows allRows prsd params of
             Inl e \<Rightarrow> False
           | Inr matched \<Rightarrow>
               (\<exists>m\<in>set matched.
                  causes_deletion md5 (q_fields prsd) (map (row_hash h) currentData) m) \<and>
               q_limit prsd = Some (int (length currentData))))"

text \<open>The rows of a working copy are distinct objects of the store.\<close>

definition rows_distinct :: "heap \<Rightarrow> addr jsarray \<Rightarrow> bool" where
  "rows_distinct h nd = (distinct (compact nd) \<and> valid_refs h (compact nd))"


section \<open>Lemmas on arrays and on the loops of \<^verbatim>\<open>applyDiff\<close>\<close>

lemma write_all_Nil [simp]: "write_all [] xs = xs"
  by (simp add: write_all_def)

lemma write_all_Cons [simp]: "write_all (w # ws) xs = write_all ws (array_set xs (fst w) (snd w))"
  by (simp add: write_all_def)

lemma write_all_append: "write_all (ws @ vs) xs = write_all vs (write_all ws xs)"
  by (simp add: write_all_def)

lemma forEach_nullable_list_of: "forEach_nullable f xs s = forEach f (list_of xs) s"
  by (cases xs) (simp_all add: forEach_nullable_def list_of_def)

lemma forEach_removed:
  "forEach removed_step rs s =
     Inr (fst s, write_all (map (\<lambda>r. (r_index r - 1, None)) rs) (snd s))"
  by (induction rs arbitrary: s) (simp_all add: removed_step_def bind_err_def)

lemma forEach_dealloc:
  "forEach dealloc_step ms s =
     Inr (fst s, write_all (map (\<lambda>m. (m_old_index m - 1, None)) ms) (snd s))"
  by (induction ms arbitrary: s) (simp_all add: dealloc_step_def bind_err_def)

lemma forEach_added:
  "forEach added_step as s = Inr (fst s, write_all (added_writes (fst s) as) (snd s))"
  by (induction as arbitrary: s)
     (auto simp add: added_step_def bind_err_def added_writes_def split: option.splits)

lemma array_get_in_range: "in_range data i \<Longrightarrow> array_get data (i - 1) = Some (data ! nat (i - 1))"
  by (auto simp add: in_range_def array_get_def)

lemma array_get_not_in_range: "\<not> in_range data i \<Longrightarrow> array_get data (i - 1) = None"
  by (auto simp add: in_range_def array_get_def)

lemma clone_rows_Cons:
  "clone_rows h data (c # cs) =
     set_prop (deref h (source_row data (c_orig_index c))) ''_index'' (JNum (c_new_index c))
       # clone_rows h data cs"
  by (simp add: clone_rows_def)

lemma copied_writes_Cons:
  "copied_writes n (c # cs) = (c_new_index c - 1, Some n) # copied_writes (Suc n) cs"
  by (simp add: copied_writes_def)

lemma deref_append: "a < length h \<Longrightarrow> deref (h @ h') a = deref h a"
  by (simp add: deref_def nth_append)

lemma clone_rows_append:
  assumes "valid_refs h data" "\<forall>c\<in>set cs. in_range data (c_orig_index c)"
  shows "clone_rows (h @ h') data cs = clone_rows h data cs"
  using assms
  by (auto simp add: clone_rows_def source_row_def in_range_def deref_append valid_refs_def)

lemma forEach_copied_ok:
  assumes "valid_refs h data" "\<forall>c\<in>set cs. in_range data (c_orig_index c)"
  shows "forEach (copied_step data) cs (h, nr) =
           Inr (h @ clone_rows h data cs, write_all (copied_writes (length h) cs) nr)"
  using assms
proof (induction cs arbitrary: h nr)
  case Nil
  then show ?case by (simp add: clone_rows_def copied_writes_def)
next
  case (Cons c cs)
  let ?ob = "set_prop (deref h (source_row data (c_orig_index c))) ''_index'' (JNum (c_new_index c))"
  have r: "in_range data (c_orig_index c)" using Cons.prems by simp
  have step: "copied_step data (h, nr) c =
      Inr (h @ [?ob], array_set nr (c_new_index c - 1) (Some (length h)))"
    by (simp add: copied_step_def array_get_in_range [OF r] alloc_def source_row_def)
  have a': "valid_refs (h @ [?ob]) data" using Cons.prems by (auto simp add: valid_refs_def)
  have c': "\<forall>c\<in>set cs. in_range data (c_orig_index c)" using Cons.prems by simp
  have cl: "clone_rows (h @ [?ob]) data cs = clone_rows h data cs"
    using clone_rows_append [OF Cons.prems(1) c'] by simp
  show ?case
    using Cons.IH [OF a' c', of "array_set nr (c_new_index c - 1) (Some (length h))"]
    by (simp add: step bind_err_def cl clone_rows_Cons copied_writes_Cons)
qed

lemma forEach_copied_fail:
  assumes "\<exists>c\<in>set cs. \<not> in_range data (c_orig_index c)"
  shows "forEach (copied_step data) cs s = Inl TypeError"
  using assms
proof (induction cs arbitrary: s)
  case Nil
  then show ?case by simp
next
  case (Cons c cs)
  show ?case
  proof (cases "in_range data (c_orig_index c)")
    case True
    then have "\<exists>c\<in>set cs. \<not> in_range data (c_orig_index c)" using Cons.prems by auto
    from Cons.IH [OF this] show ?thesis
      by (simp add: bind_err_def copied_step_def array_get_in_range [OF True] alloc_def)
  next
    case False
    then show ?thesis
      by (simp add: copied_step_def array_get_not_in_range bind_err_def)
  qed
qed

lemma forEach_moved_ok:
  assumes "\<forall>m\<in>set ms. in_range data (m_old_index m)"
  shows "forEach (moved_step data) ms (h, nr) =
           Inr (moved_heap h data ms, write_all (moved_writes data ms) nr)"
  using assms
proof (induction ms arbitrary: h nr)
  case Nil
  then show ?case by (simp add: moved_heap_def moved_writes_def)
next
  case (Cons m ms)
  have r: "in_range data (m_old_index m)" using Cons.prems by simp
  have "\<forall>m\<in>set ms. in_range data (m_old_index m)" using Cons.prems by simp
  from Cons.IH [OF this] show ?case
    by (simp add: moved_step_def array_get_in_range [OF r] bind_err_def moved_heap_def
                  moved_writes_def source_row_def)
qed

lemma forEach_moved_fail:
  assumes "\<exists>m\<in>set ms. \<not> in_range data (m_old_index m)"
  shows "forEach (moved_step data) ms s = Inl TypeError"
  using assms
proof (induction ms arbitrary: s)
  case Nil
  then show ?case by simp
next
  case (Cons m ms)
  show ?case
  proof (cases "in_range data (m_old_index m)")
    case True
    then have "\<exists>m\<in>set ms. \<not> in_range data (m_old_index m)" using Cons.prems by auto
    from Cons.IH [OF this] show ?thesis
      by (simp add: bind_err_def moved_step_def array_get_in_range [OF True])
  next
    case False
    then show ?thesis
      by (simp add: moved_step_def array_get_not_in_range bind_err_def)
  qed
qed

lemma slot_array_set:
  "0 \<le> i \<Longrightarrow> slot (array_set xs i v) k = (if k = nat i then v else slot xs k)"
  by (auto simp add: slot_def array_set_def nth_append nth_Cons')

lemma slot_array_set_neg: "i < 0 \<Longrightarrow> array_set xs i v = xs"
  by (simp add: array_set_def)

lemma slot_write_all:
  "slot (write_all ws xs) k =
     (case map_of (rev (map (\<lambda>w. (fst w, snd w)) ws)) (int k) of
        Some v \<Rightarrow> v
      | None \<Rightarrow> slot xs k)"
proof (induction ws arbitrary: xs)
  case Nil
  then show ?case by simp
next
  case (Cons w ws)
  show ?case
  proof (cases "fst w < 0")
    case True
    then have "fst w \<noteq> int k" by simp
    with True show ?thesis
      by (simp add: Cons.IH slot_array_set_neg map_of_append map_add_def split: option.splits)
  next
    case False
    then show ?thesis
      by (auto simp add: Cons.IH slot_array_set map_of_append map_add_def split: option.splits)
  qed
qed

lemma compact_append: "compact (xs @ ys) = compact xs @ compact ys"
  by (simp add: compact_def List.map_filter_def)

lemma compact_slots:
  assumes "\<forall>k<n. slot xs k = Some (f k)" "\<forall>k\<ge>n. slot xs k = None"
  shows "compact xs = map f [0..<n]"
proof -
  have len: "n \<le> length xs"
  proof (rule ccontr)
    assume "\<not> n \<le> length xs"
    then have "length xs < n" by simp
    with assms(1) have "slot xs (length xs) = Some (f (length xs))" by blast
    then show False by (simp add: slot_def)
  qed
  have t: "take n xs = map (\<lambda>k. Some (f k)) [0..<n]"
  proof (rule nth_equalityI)
    show "length (take n xs) = length (map (\<lambda>k. Some (f k)) [0..<n])" using len by simp
  next
    fix i assume "i < length (take n xs)"
    then have "i < n" by simp
    with assms(1) len show "take n xs ! i = map (\<lambda>k. Some (f k)) [0..<n] ! i"
      by (auto simp add: slot_def)
  qed
  have d: "drop n xs = replicate (length xs - n) None"
  proof (rule nth_equalityI)
    show "length (drop n xs) = length (replicate (length xs - n) None)" by simp
  next
    fix i assume i: "i < length (drop n xs)"
    then have "slot xs (n + i) = None" and "n + i < length xs" using assms(2) by simp_all
    with i show "drop n xs ! i = replicate (length xs - n) None ! i"
      by (simp add: slot_def)
  qed
  have "compact xs = compact (take n xs) @ compact (drop n xs)"
    using compact_append [of "take n xs" "drop n xs"] by simp
  also have "compact (take n xs) = map f [0..<n]"
    by (simp add: t compact_def List.map_filter_def comp_def)
  also have "compact (drop n xs) = []"
    by (simp add: d compact_def List.map_filter_def)
  finally show ?thesis by simp
qed

lemma applyDiff_ok:
  assumes "valid_refs h data" "sources_ok data d"
  shows "applyDiff h data d = Inr (applyDiff_phases h data d)"
proof -
  have c: "\<forall>c\<in>set (list_of (copied d)). in_range data (c_orig_index c)"
    and m: "\<forall>m\<in>set (list_of (moved d)). in_range data (m_old_index m)"
    using assms(2) by (simp_all add: sources_ok_def)
  show ?thesis
    by (simp add: applyDiff_def applyDiff_phases_def forEach_nullable_list_of forEach_removed
        forEach_dealloc forEach_copied_ok [OF assms(1) c] forEach_moved_ok [OF m]
        forEach_added bind_err_def phase_null_removed_def phase_null_moved_def
        phase_write_copied_def phase_write_moved_def phase_write_added_def Let_def)
qed

lemma forEach_copied_grows:
  assumes "\<forall>c\<in>set cs. in_range data (c_orig_index c)"
  shows "\<exists>cl nr'. forEach (copied_step data) cs (h, nr) = Inr (h @ cl, nr')"
  using assms
proof (induction cs arbitrary: h nr)
  case Nil
  then show ?case by simp
next
  case (Cons c cs)
  have r: "in_range data (c_orig_index c)" using Cons.prems by simp
  have c': "\<forall>c\<in>set cs. in_range data (c_orig_index c)" using Cons.prems by simp
  obtain ob nr1 where step: "copied_step data (h, nr) c = Inr (h @ [ob], nr1)"
    by (simp add: copied_step_def array_get_in_range [OF r] alloc_def)
  from Cons.IH [OF c', of "h @ [ob]" nr1]
  obtain cl nr' where "forEach (copied_step data) cs (h @ [ob], nr1) = Inr ((h @ [ob]) @ cl, nr')"
    by blast
  then have "forEach (copied_step data) (c # cs) (h, nr) = Inr (h @ (ob # cl), nr')"
    by (simp add: step bind_err_def)
  then show ?case by blast
qed

lemma applyDiff_fail:
  assumes "\<not> sources_ok data d"
  shows "applyDiff h data d = Inl TypeError"
proof (cases "\<forall>c\<in>set (list_of (copied d)). in_range data (c_orig_index c)")
  case False
  then have "\<exists>c\<in>set (list_of (copied d)). \<not> in_range data (c_orig_index c)" by simp
  from forEach_copied_fail [OF this] show ?thesis
    by (simp add: applyDiff_def forEach_nullable_list_of forEach_removed forEach_dealloc
        bind_err_def)
next
  case True
  with assms have "\<exists>m\<in>set (list_of (moved d)). \<not> in_range data (m_old_index m)"
    by (simp add: sources_ok_def)
  note mf = forEach_moved_fail [OF this]
  obtain cl nr' where
    "forEach (copied_step data) (list_of (copied d))
       (h, write_all (map (\<lambda>m. (m_old_index m - 1, None)) (list_of (moved d)))
             (write_all (map (\<lambda>r. (r_index r - 1, None)) (list_of (removed d)))
                (map Some data))) = Inr (h @ cl, nr')"
    using forEach_copied_grows [OF True] by blast
  then show ?thesis
    by (simp add: applyDiff_def forEach_nullable_list_of forEach_removed forEach_dealloc
        bind_err_def mf)
qed

lemma applyDiff_grows:
  assumes "applyDiff h data d = Inr (h', res)"
  shows "\<exists>cl. h' = moved_heap (h @ cl) data (list_of (moved d))"
proof -
  have ok: "sources_ok data d"
    using assms applyDiff_fail [of data d h] by (cases "sources_ok data d") simp_all
  then have c: "\<forall>c\<in>set (list_of (copied d)). in_range data (c_orig_index c)"
    and m: "\<forall>m\<in>set (list_of (moved d)). in_range data (m_old_index m)"
    by (simp_all add: sources_ok_def)
  obtain cl nr' where
    "forEach (copied_step data) (list_of (copied d))
       (h, write_all (map (\<lambda>m. (m_old_index m - 1, None)) (list_of (moved d)))
             (write_all (map (\<lambda>r. (r_index r - 1, None)) (list_of (removed d)))
                (map Some data))) = Inr (h @ cl, nr')"
    using forEach_copied_grows [OF c] by blast
  with assms have "h' = moved_heap (h @ cl) data (list_of (moved d))"
    by (simp add: applyDiff_def forEach_nullable_list_of forEach_removed forEach_dealloc
        bind_err_def forEach_moved_ok [OF m] forEach_added)
  then show ?thesis by blast
qed

lemma length_moved_heap [simp]: "length (moved_heap h data ms) = length h"
  by (induction ms arbitrary: h) (simp_all add: moved_heap_def store_def)

lemma moved_heap_Cons:
  "moved_heap h data (m # ms) =
     moved_heap (store h (source_row data (m_old_index m))
                   (set_prop (deref h (source_row data (m_old_index m))) ''_index''
                      (JNum (m_new_index m)))) data ms"
  by (simp add: moved_heap_def)

lemma deref_store_other: "a \<noteq> b \<Longrightarrow> deref (store h b x) a = deref h a"
  by (simp add: deref_def store_def)

lemma deref_store_same: "a < length h \<Longrightarrow> deref (store h a x) a = x"
  by (simp add: deref_def store_def)

lemma set_prop_twice: "set_prop (set_prop ob k v) k v' = set_prop ob k v'"
  by (simp add: set_prop_def)

lemma moved_heap_other:
  assumes "a \<notin> (\<lambda>m. source_row data (m_old_index m)) ` set ms"
  shows "deref (moved_heap h data ms) a = deref h a"
  using assms
proof (induction ms arbitrary: h)
  case Nil
  then show ?case by (simp add: moved_heap_def)
next
  case (Cons m ms)
  then have "a \<noteq> source_row data (m_old_index m)"
    and "a \<notin> (\<lambda>m. source_row data (m_old_index m)) ` set ms" by auto
  then show ?case
    by (simp add: moved_heap_Cons Cons.IH deref_store_other)
qed

lemma moved_heap_source:
  assumes "a \<in> (\<lambda>m. source_row data (m_old_index m)) ` set ms" "a < length h"
  shows "\<exists>m\<in>set ms. source_row data (m_old_index m) = a \<and>
           deref (moved_heap h data ms) a = set_prop (deref h a) ''_index'' (JNum (m_new_index m))"
  using assms
proof (induction ms arbitrary: h)
  case Nil
  then show ?case by simp
next
  case (Cons m ms)
  let ?a = "source_row data (m_old_index m)"
  let ?h = "store h ?a (set_prop (deref h ?a) ''_index'' (JNum (m_new_index m)))"
  show ?case
  proof (cases "a \<in> (\<lambda>m. source_row data (m_old_index m)) ` set ms")
    case True
    have "a < length ?h" using Cons.prems(2) by (simp add: store_def)
    from Cons.IH [OF True this] obtain m' where m': "m' \<in> set ms"
      "source_row data (m_old_index m') = a"
      "deref (moved_heap ?h data ms) a = set_prop (deref ?h a) ''_index'' (JNum (m_new_index m'))"
      by blast
    have "set_prop (deref ?h a) ''_index'' (JNum (m_new_index m')) =
          set_prop (deref h a) ''_index'' (JNum (m_new_index m'))"
      using Cons.prems(2)
      by (cases "?a = a") (auto simp add: deref_store_other deref_store_same set_prop_twice)
    with m' show ?thesis by (auto simp add: moved_heap_Cons)
  next
    case False
    with Cons.prems(1) have eq: "?a = a" by auto
    have "deref (moved_heap ?h data ms) a = deref ?h a"
      using moved_heap_other [OF False] .
    also have "\<dots> = set_prop (deref h a) ''_index'' (JNum (m_new_index m))"
      using Cons.prems(2) eq by (simp add: deref_store_same)
    finally show ?thesis using eq by (auto simp add: moved_heap_Cons)
  qed
qed

lemma applyDiff_returns:
  assumes "sources_ok data d"
  shows "\<exists>h' res. applyDiff h data d = Inr (h', res)"
proof -
  have c: "\<forall>c\<in>set (list_of (copied d)). in_range data (c_orig_index c)"
    and m: "\<forall>m\<in>set (list_of (moved d)). in_range data (m_old_index m)"
    using assms by (simp_all add: sources_ok_def)
  obtain cl nr' where
    "forEach (copied_step data) (list_of (copied d))
       (h, write_all (map (\<lambda>m. (m_old_index m - 1, None)) (list_of (moved d)))
             (write_all (map (\<lambda>r. (r_index r - 1, None)) (list_of (removed d)))
                (map Some data))) = Inr (h @ cl, nr')"
    using forEach_copied_grows [OF c] by blast
  then show ?thesis
    by (simp add: applyDiff_def forEach_nullable_list_of forEach_removed forEach_dealloc
        bind_err_def forEach_moved_ok [OF m] forEach_added)
qed

lemma compact_map_Some [simp]: "compact (map Some xs) = xs"
  by (induction xs) (simp_all add: compact_def)

lemma applyDiff_all_null:
  assumes "removed d = None" "moved d = None" "copied d = None" "added d = None"
  shows "applyDiff h data d = Inr (h, data)"
  using assms by (simp add: applyDiff_def forEach_nullable_def bind_err_def)

lemma applyDiff_null_as_empty:
  "applyDiff h data d =
   applyDiff h data \<lparr>removed = Some (list_of (removed d)), moved = Some (list_of (moved d)),
                     copied = Some (list_of (copied d)), added = Some (list_of (added d))\<rparr>"
  by (simp add: applyDiff_def forEach_nullable_list_of list_of_def)

section \<open>Claims on \<^verbatim>\<open>applyDiff\<close>\<close>

text \<open>
  Claim C2. For every data and diff, \<^verbatim>\<open>applyDiff\<close> performs its phases in this order:
  null out the removed positions, null out the \<^verbatim>\<open>old_index\<close> positions of moved, write
  the copied rows (each a clone of the row at \<^verbatim>\<open>orig_index - 1\<close> of the original data
  with \<^verbatim>\<open>_index\<close> set to \<^verbatim>\<open>new_index\<close>), write the moved rows (taken from the original
  data with \<^verbatim>\<open>_index\<close> set to \<^verbatim>\<open>new_index\<close>), write the added rows at \<^verbatim>\<open>_index - 1\<close>,
  then compact; no write phase reads the working copy: what each one writes is computed
  from the original data, the diff and the store alone. When an \<^verbatim>\<open>orig_index\<close> or
  \<^verbatim>\<open>old_index\<close> lies outside the data, the call throws a TypeError instead.
  The rows of the data are objects of the store.
\<close>

theorem applyDiff_phase_order:
  assumes "valid_refs h data"
  shows "applyDiff h data d =
     (if sources_ok data d then
        (let s2 = (h, phase_null_moved d (phase_null_removed d (map Some data)));
             s3 = phase_write_copied h data d s2;
             s4 = phase_write_moved data d s3;
             s5 = phase_write_added d s4
         in Inr (fst s5, compact (snd s5)))
      else Inl TypeError)"
proof (cases "sources_ok data d")
  case True
  from applyDiff_ok [OF assms True] True show ?thesis
    by (simp add: applyDiff_phases_def Let_def)
next
  case False
  from applyDiff_fail [OF False] False show ?thesis by simp
qed

theorem applyDiff_phase_order_witness:
  "valid_refs
     [[(''name'', JStr ''a''), (''_hash'', JStr ''ha''), (''_index'', JNum 1)],
      [(''name'', JStr ''b''), (''_hash'', JStr ''hb''), (''_index'', JNum 2)],
      [(''name'', JStr ''c''), (''_hash'', JStr ''hc''), (''_index'', JNum 3)],
      [(''name'', JStr ''x''), (''_hash'', JStr ''hx''), (''_index'', JNum 1)]]
     [0, 1, 2] \<and>
   applyDiff
     [[(''name'', JStr ''a''), (''_hash'', JStr ''ha''), (''_index'', JNum 1)],
      [(''name'', JStr ''b''), (''_hash'', JStr ''hb''), (''_index'', JNum 2)],
      [(''name'', JStr ''c''), (''_hash'', JStr ''hc''), (''_index'', JNum 3)],
      [(''name'', JStr ''x''), (''_hash'', JStr ''hx''), (''_index'', JNum 1)]]
     [0, 1, 2]
     \<lparr>removed = Some [Removed 3], moved = Some [Moved 1 2],
      copied = Some [Copied 1 3], added = Some [3]\<rparr>
   = Inr ([[(''name'', JStr ''a''), (''_hash'', JStr ''ha''), (''_index'', JNum 2)],
           [(''name'', JStr ''b''), (''_hash'', JStr ''hb''), (''_index'', JNum 2)],
           [(''name'', JStr ''c''), (''_hash'', JStr ''hc''), (''_index'', JNum 3)],
           [(''name'', JStr ''x''), (''_hash'', JStr ''hx''), (''_index'', JNum 1)],
           [(''name'', JStr ''a''), (''_hash'', JStr ''ha''), (''_index'', JNum 3)]],
          [3, 0, 4])"
proof -
  have v: "valid_refs
     [[(''name'', JStr ''a''), (''_hash'', JStr ''ha''), (''_index'', JNum 1)],
      [(''name'', JStr ''b''), (''_hash'', JStr ''hb''), (''_index'', JNum 2)],
      [(''name'', JStr ''c''), (''_hash'', JStr ''hc''), (''_index'', JNum 3)],
      [(''name'', JStr ''x''), (''_hash'', JStr ''hx''), (''_index'', JNum 1)]]
     [0, 1, 2]"
    by (simp add: valid_refs_def)
  have "applyDiff
     [[(''name'', JStr ''a''), (''_hash'', JStr ''ha''), (''_index'', JNum 1)],
      [(''name'', JStr ''b''), (''_hash'', JStr ''hb''), (''_index'', JNum 2)],
      [(''name'', JStr ''c''), (''_hash'', JStr ''hc''), (''_index'', JNum 3)],
      [(''name'', JStr ''x''), (''_hash'', JStr ''hx''), (''_index'', JNum 1)]]
     [0, 1, 2]
     \<lparr>removed = Some [Removed 3], moved = Some [Moved 1 2],
      copied = Some [Copied 1 3], added = Some [3]\<rparr>
   = Inr ([[(''name'', JStr ''a''), (''_hash'', JStr ''ha''), (''_index'', JNum 2)],
           [(''name'', JStr ''b''), (''_hash'', JStr ''hb''), (''_index'', JNum 2)],
           [(''name'', JStr ''c''), (''_hash'', JStr ''hc''), (''_index'', JNum 3)],
           [(''name'', JStr ''x''), (''_hash'', JStr ''hx''), (''_index'', JNum 1)],
           [(''name'', JStr ''a''), (''_hash'', JStr ''ha''), (''_index'', JNum 3)]],
          [3, 0, 4])"
    unfolding applyDiff_phase_order [OF v]
    by (simp add: sources_ok_def list_of_def in_range_def phase_null_removed_def
        phase_null_moved_def phase_write_copied_def phase_write_moved_def
        phase_write_added_def write_all_def array_set_def clone_rows_def copied_writes_def
        moved_heap_def moved_writes_def added_writes_def source_row_def deref_def store_def
        set_prop_def get_prop_def minus_one_def to_number_def compact_def enumerate_eq_zip)
  with v show ?thesis by blast
qed

text \<open>
  Claim C3, as the source has it. The claim says that no field of any input row is
  modified. The loop over \<^verbatim>\<open>moved\<close> assigns \<^verbatim>\<open>_index\<close> on the row object of the old
  data itself; only the \<^verbatim>\<open>copied\<close> loop clones. Moving the first two of three rows
  changes \<^verbatim>\<open>_index\<close> of the input rows at addresses 0 and 1.
\<close>

theorem applyDiff_mutates_moved_row:
  "applyDiff
     [[(''id'', JNum 1), (''_hash'', JStr ''h1''), (''_index'', JNum 1)],
      [(''id'', JNum 2), (''_hash'', JStr ''h2''), (''_index'', JNum 2)],
      [(''id'', JNum 3), (''_hash'', JStr ''h3''), (''_index'', JNum 3)]]
     [0, 1, 2]
     \<lparr>removed = None, moved = Some [Moved 2 1, Moved 1 2], copied = None, added = None\<rparr>
   = Inr ([[(''id'', JNum 1), (''_hash'', JStr ''h1''), (''_index'', JNum 2)],
           [(''id'', JNum 2), (''_hash'', JStr ''h2''), (''_index'', JNum 1)],
           [(''id'', JNum 3), (''_hash'', JStr ''h3''), (''_index'', JNum 3)]],
          [1, 0, 2])"
  by (simp add: applyDiff_def forEach_nullable_def bind_err_def dealloc_step_def moved_step_def
      array_get_def array_set_def store_def deref_def set_prop_def compact_def)

text \<open>
  Claim C3, amended. Whenever \<^verbatim>\<open>applyDiff\<close> returns, the store has only grown (the
  returned array and the clones are new; the input array is never assigned to), every
  object that was in the store and is not the source row of a \<^verbatim>\<open>moved\<close> entry is
  unchanged in every field, and a row that is the source of a \<^verbatim>\<open>moved\<close> entry differs
  from its input value in \<^verbatim>\<open>_index\<close> alone, which holds the \<^verbatim>\<open>new_index\<close> of such an
  entry.
\<close>

theorem applyDiff_frame:
  assumes "applyDiff h data d = Inr (h', res)"
  shows "length h \<le> length h' \<and>
         (\<forall>a<length h.
            (a \<notin> moved_sources data d \<longrightarrow> deref h' a = deref h a) \<and>
            (a \<in> moved_sources data d \<longrightarrow>
               (\<exists>m\<in>set (list_of (moved d)). source_row data (m_old_index m) = a \<and>
                  deref h' a = set_prop (deref h a) ''_index'' (JNum (m_new_index m)))))"
proof -
  obtain cl where h': "h' = moved_heap (h @ cl) data (list_of (moved d))"
    using applyDiff_grows [OF assms] by blast
  have "length h \<le> length h'" by (simp add: h')
  moreover have "deref h' a = deref h a" if "a < length h" "a \<notin> moved_sources data d" for a
    using that moved_heap_other [of a data "list_of (moved d)" "h @ cl"]
    by (simp add: h' moved_sources_def deref_append)
  moreover have "\<exists>m\<in>set (list_of (moved d)). source_row data (m_old_index m) = a \<and>
      deref h' a = set_prop (deref h a) ''_index'' (JNum (m_new_index m))"
    if "a < length h" "a \<in> moved_sources data d" for a
    using that moved_heap_source [of a data "list_of (moved d)" "h @ cl"]
    by (simp add: h' moved_sources_def deref_append)
  ultimately show ?thesis by blast
qed

theorem applyDiff_frame_witness:
  "applyDiff
     [[(''id'', JNum 1), (''_hash'', JStr ''h1''), (''_index'', JNum 1)],
      [(''id'', JNum 2), (''_hash'', JStr ''h2''), (''_index'', JNum 2)],
      [(''id'', JNum 3), (''_hash'', JStr ''h3''), (''_index'', JNum 3)]]
     [0, 1, 2]
     \<lparr>removed = None, moved = Some [Moved 2 1], copied = None, added = None\<rparr>
   = Inr ([[(''id'', JNum 1), (''_hash'', JStr ''h1''), (''_index'', JNum 1)],
           [(''id'', JNum 2), (''_hash'', JStr ''h2''), (''_index'', JNum 1)],
           [(''id'', JNum 3), (''_hash'', JStr ''h3''), (''_index'', JNum 3)]],
          [1, 2]) \<and>
   2 \<notin> moved_sources [0, 1, 2]
     \<lparr>removed = None, moved = Some [Moved 2 1], copied = None, added = None\<rparr> \<and>
   deref [[(''id'', JNum 1), (''_hash'', JStr ''h1''), (''_index'', JNum 1)],
          [(''id'', JNum 2), (''_hash'', JStr ''h2''), (''_index'', JNum 1)],
          [(''id'', JNum 3), (''_hash'', JStr ''h3''), (''_index'', JNum 3)]] 2
     = deref [[(''id'', JNum 1), (''_hash'', JStr ''h1''), (''_index'', JNum 1)],
          [(''id'', JNum 2), (''_hash'', JStr ''h2''), (''_index'', JNum 2)],
          [(''id'', JNum 3), (''_hash'', JStr ''h3''), (''_index'', JNum 3)]] 2"
proof -
  let ?h = "[[(''id'', JNum 1), (''_hash'', JStr ''h1''), (''_index'', JNum 1)],
      [(''id'', JNum 2), (''_hash'', JStr ''h2''), (''_index'', JNum 2)],
      [(''id'', JNum 3), (''_hash'', JStr ''h3''), (''_index'', JNum 3)]]"
  let ?h' = "[[(''id'', JNum 1), (''_hash'', JStr ''h1''), (''_index'', JNum 1)],
           [(''id'', JNum 2), (''_hash'', JStr ''h2''), (''_index'', JNum 1)],
           [(''id'', JNum 3), (''_hash'', JStr ''h3''), (''_index'', JNum 3)]]"
  let ?d = "\<lparr>removed = None, moved = Some [Moved 2 1], copied = None, added = None\<rparr>"
  have e: "applyDiff ?h [0, 1, 2] ?d = Inr (?h', [1, 2])"
    by (simp add: applyDiff_def forEach_nullable_def bind_err_def dealloc_step_def
        moved_step_def array_get_def array_set_def store_def deref_def set_prop_def
        compact_def)
  have n: "2 \<notin> moved_sources [0, 1, 2] ?d"
    by (simp add: moved_sources_def list_of_def source_row_def)
  have l: "(2::nat) < length ?h" by simp
  from applyDiff_frame [OF e] l n have "deref ?h' 2 = deref ?h 2" by blast
  with e n show ?thesis by blast
qed

text \<open>
  Claim C10, as the source has it. The claim says that \<^verbatim>\<open>applyDiff\<close> does not fail on
  any diff in which some list is \<^verbatim>\<open>null\<close>. A \<^verbatim>\<open>null\<close> list is skipped, but a list that
  is not \<^verbatim>\<open>null\<close> can still make the call throw: on an empty data array, with
  \<^verbatim>\<open>moved = [{old_index: 5, new_index: 1}]\<close> and the three other lists \<^verbatim>\<open>null\<close>, the row
  \<^verbatim>\<open>data[4]\<close> is \<^verbatim>\<open>undefined\<close> and the assignment to its \<^verbatim>\<open>_index\<close> is a TypeError.
\<close>

theorem applyDiff_null_list_TypeError:
  "removed \<lparr>removed = None, moved = Some [Moved 5 1], copied = None, added = None\<rparr> = None \<and>
   copied \<lparr>removed = None, moved = Some [Moved 5 1], copied = None, added = None\<rparr> = None \<and>
   added \<lparr>removed = None, moved = Some [Moved 5 1], copied = None, added = None\<rparr> = None \<and>
   applyDiff [] [] \<lparr>removed = None, moved = Some [Moved 5 1], copied = None, added = None\<rparr>
     = Inl TypeError"
  by (simp add: applyDiff_def forEach_nullable_def bind_err_def dealloc_step_def moved_step_def
      array_get_def)

text \<open>
  Claim C10, amended. For every data array and every diff, \<^verbatim>\<open>applyDiff\<close> treats each
  \<^verbatim>\<open>null\<close> list as the empty list (same result, same exception); it returns exactly
  when every \<^verbatim>\<open>orig_index\<close> of \<^verbatim>\<open>copied\<close> and every \<^verbatim>\<open>old_index\<close> of \<^verbatim>\<open>moved\<close> names a row
  of the data, and throws a TypeError otherwise; with all four lists \<^verbatim>\<open>null\<close> it returns
  the rows of the input in order, the store unchanged.
\<close>

theorem applyDiff_null_lists:
  "applyDiff h data d =
     applyDiff h data \<lparr>removed = Some (list_of (removed d)), moved = Some (list_of (moved d)),
                       copied = Some (list_of (copied d)), added = Some (list_of (added d))\<rparr> \<and>
   (sources_ok data d \<longrightarrow> (\<exists>h' res. applyDiff h data d = Inr (h', res))) \<and>
   (\<not> sources_ok data d \<longrightarrow> applyDiff h data d = Inl TypeError) \<and>
   (removed d = None \<and> moved d = None \<and> copied d = None \<and> added d = None \<longrightarrow>
      applyDiff h data d = Inr (h, data))"
  using applyDiff_null_as_empty [of h data d] applyDiff_returns [of data d h]
    applyDiff_fail [of data d h] applyDiff_all_null [of d h data]
  by blast

theorem applyDiff_null_lists_witness:
  "sources_ok [0, 1] \<lparr>removed = None, moved = None, copied = None, added = None\<rparr> \<and>
   applyDiff
     [[(''id'', JNum 1), (''_hash'', JStr ''h1''), (''_index'', JNum 1)],
      [(''id'', JNum 2), (''_hash'', JStr ''h2''), (''_index'', JNum 2)]]
     [0, 1] \<lparr>removed = None, moved = None, copied = None, added = None\<rparr>
   = Inr ([[(''id'', JNum 1), (''_hash'', JStr ''h1''), (''_index'', JNum 1)],
           [(''id'', JNum 2), (''_hash'', JStr ''h2''), (''_index'', JNum 2)]], [0, 1])"
proof -
  let ?h = "[[(''id'', JNum 1), (''_hash'', JStr ''h1''), (''_index'', JNum 1)],
             [(''id'', JNum 2), (''_hash'', JStr ''h2''), (''_index'', JNum 2)]]"
  let ?d = "\<lparr>removed = None, moved = None, copied = None, added = None\<rparr>"
  have s: "sources_ok [0, 1] ?d" by (simp add: sources_ok_def list_of_def)
  have n: "removed ?d = None \<and> moved ?d = None \<and> copied ?d = None \<and> added ?d = None"
    by simp
  from applyDiff_null_lists [of ?h "[0, 1]" ?d] n
  have "applyDiff ?h [0, 1] ?d = Inr (?h, [0, 1])" by blast
  with s show ?thesis by blast
qed

section \<open>Lemmas on the engine\<close>





lemma schema_loop_no_error:
  "(\<forall>t\<in>set ts. trigger_database dflt t \<noteq> None) \<Longrightarrow> snd (schema_loop dflt ts sc) = None"
  by (induction ts arbitrary: sc) (auto split: option.splits)

lemma live_pairs_cong:
  assumes "e_settings s' = e_settings s" "e_select s' = e_select s"
    "\<forall>sel\<in>set (e_select s). subs s' ! sel = subs s ! sel"
  shows "live_pairs s' = live_pairs s"
  using assms by (simp add: live_pairs_def)



lemma select_invalid:
  "\<not> types_ok q v k t m \<Longrightarrow> \<exists>msg. select f s q v k t m = (s, Inl (Error msg))"
  by (auto simp add: select_def types_ok_def)

lemma select_valid:
  "types_ok q v k t m \<Longrightarrow> select f s q v k t m = register f s q v k t m"
  by (simp add: select_def types_ok_def)








lemma removeSelect_paused: "e_paused (fst (removeSelect s sel)) = e_paused s"
  by (simp add: removeSelect_def Let_def)

lemma new_select_schema [simp]: "e_schemaCache (fst (new_select s qc ts)) = e_schemaCache s"
  by (simp add: new_select_def Let_def)




lemma step_slaveSettings: "e_slaveSettings (step f s c) = e_slaveSettings s"
proof (cases c)
  case (Select q v k t m)
  show ?thesis
  proof (cases "types_ok q v k t m")
    case True
    then show ?thesis
      by (simp add: Select select_valid register_def new_select_def Let_def
          split: prod.splits option.splits sum.splits)
  next
    case False
    from select_invalid [OF False, of f s] show ?thesis by (auto simp add: Select)
  qed
next
  case (RemoveSelect sel)
  then show ?thesis by (simp add: removeSelect_def Let_def)
next
  case Pause
  then show ?thesis by (simp add: pause_def)
next
  case Resume
  then show ?thesis by (simp add: resume_def)
qed

lemma run_slaveSettings: "e_slaveSettings (run f s cs) = e_slaveSettings s"
  unfolding run_def by (induction cs arbitrary: s) (simp_all add: step_slaveSettings)

section \<open>Claims on the engine\<close>




text \<open>
  Claim C7. Two calls of \<^verbatim>\<open>select\<close> with the same identity key share one cache, and a call
  with a new identity creates and registers a new cache. The source reads the engine's
  default interval from \<^verbatim>\<open>this.slaveSettings\<close>, a property that the constructor never sets
  (it sets \<^verbatim>\<open>binlogSettings\<close>) and that no call changes: after any sequence of calls it is
  still \<^verbatim>\<open>undefined\<close>. So a call with a new identity and no \<^verbatim>\<open>minInterval\<close> argument
  throws a TypeError at line 178 and registers no cache and no subscription, although
  its triggers are in the schema cache by then.
\<close>

theorem select_new_identity_TypeError:
  "e_slaveSettings (run f (LiveMysql st bs) cs) = None \<and>
   select (\<lambda>q v k. q @ ''|'' @ k)
     (LiveMysql \<lparr>st_database = None\<rparr> \<lparr>bs_serverId = None, bs_minInterval = Some 100\<rparr>)
     (DStr ''SELECT * FROM t'') DUndefined (DFun ''k'')
     (DArr [\<lparr>t_database = Some ''db'', t_table = ''t''\<rparr>]) DUndefined
   = (\<lparr>e_settings = \<lparr>st_database = None\<rparr>,
       e_binlogSettings = \<lparr>bs_serverId = None, bs_minInterval = Some 100\<rparr>,
       e_slaveSettings = None, e_select = [], e_queryCache = [],
       e_schemaCache = [(''db'', [''t''])], e_paused = False, caches = [], subs = []\<rparr>,
      Inl TypeError)"
proof -
  have "e_slaveSettings (run f (LiveMysql st bs) cs) = None"
    by (simp add: run_slaveSettings LiveMysql_def)
  then show ?thesis
    by (simp add: select_def register_def trigger_database_def include_table_def
        cache_minInterval_def LiveMysql_def is_string_def is_object_def is_function_def
        is_array_def is_number_def elements_def string_of_def Let_def)
qed

theorem select_new_identity_TypeError_witness:
  "e_slaveSettings
     (run (\<lambda>q v k. q @ ''|'' @ k)
        (LiveMysql \<lparr>st_database = None\<rparr> \<lparr>bs_serverId = None, bs_minInterval = Some 100\<rparr>)
        [Select (DStr ''SELECT * FROM t'') DUndefined (DFun ''k'')
           (DArr [\<lparr>t_database = Some ''db'', t_table = ''t''\<rparr>]) (DNum 0), Pause, Resume])
     = None \<and>
   snd (select (\<lambda>q v k. q @ ''|'' @ k)
     (LiveMysql \<lparr>st_database = None\<rparr> \<lparr>bs_serverId = None, bs_minInterval = Some 100\<rparr>)
     (DStr ''SELECT * FROM t'') DUndefined (DFun ''k'')
     (DArr [\<lparr>t_database = Some ''db'', t_table = ''t''\<rparr>]) DUndefined) = Inl TypeError"
  using select_new_identity_TypeError
    [of "\<lambda>q v k. q @ ''|'' @ k" "\<lparr>st_database = None\<rparr>"
        "\<lparr>bs_serverId = None, bs_minInterval = Some 100\<rparr>"
        "[Select (DStr ''SELECT * FROM t'') DUndefined (DFun ''k'')
           (DArr [\<lparr>t_database = Some ''db'', t_table = ''t''\<rparr>]) (DNum 0), Pause, Resume]"]
  by simp




section \<open>Lemmas on the supplied-payload path\<close>

lemma payload_get_first_row_only:
  "payload_get (first_row_only p) key = map_option (take 1) (payload_get p key)"
  by (simp add: payload_get_def first_row_only_def)

lemma p_op_first_row_only: "p_op (first_row_only p) = p_op p"
  by (simp add: first_row_only_def)

lemma pushItem_first_row_only: "pushItem out (first_row_only p) key i = pushItem out p key i"
proof (cases "payload_get p key")
  case None
  then show ?thesis by (simp add: pushItem_def payload_get_first_row_only)
next
  case (Some rows)
  then show ?thesis
    by (cases rows) (simp_all add: pushItem_def payload_get_first_row_only p_op_first_row_only)
qed

lemma flatten_from_first_row_only:
  "flatten_from i (map first_row_only ps) out = flatten_from i ps out"
proof (induction ps arbitrary: i out)
  case Nil
  then show ?case by simp
next
  case (Cons p ps)
  have "flatten_from (i + 1) (map first_row_only ps) = flatten_from (i + 1) ps"
    by (rule ext) (rule Cons.IH)
  then show ?case
    by (simp add: pushItem_first_row_only p_op_first_row_only)
qed

lemma flattenNotifications_first_row_only:
  "flattenNotifications (map first_row_only ps) = flattenNotifications ps"
  by (simp add: flattenNotifications_def flatten_from_first_row_only)

lemma getDiffFromSupplied_first_row_only:
  "getDiffFromSupplied md5 cmp matchRows client h currentData (map first_row_only ps) query prsd params
     = getDiffFromSupplied md5 cmp matchRows client h currentData ps query prsd params"
  by (simp add: getDiffFromSupplied_def flattenNotifications_first_row_only)

lemma get_prop_set_prop_same [simp]: "get_prop (set_prop ob k v) k = v"
  by (simp add: get_prop_def set_prop_def update_conv')

lemma get_prop_set_prop_other [simp]: "k' \<noteq> k \<Longrightarrow> get_prop (set_prop ob k v) k' = get_prop ob k'"
  by (simp add: get_prop_def set_prop_def update_conv')

lemma clean_row_columns_ok:
  "columns_ok flds \<Longrightarrow> \<exists>c. clean_row flds m = Inr c"
  by (auto simp add: columns_ok_def clean_row_def bind_err_def Let_def split: sum.splits)

lemma clean_row_returns_columns_ok:
  "clean_row flds m = Inr c \<Longrightarrow> columns_ok flds"
  by (auto simp add: columns_ok_def clean_row_def bind_err_def Let_def split: sum.splits if_splits)

lemma indexOf_eq_minus_one: "indexOf xs x = - 1 \<longleftrightarrow> x \<notin> set xs"
  by (simp add: indexOf_def)

lemma matched_step_ok:
  assumes "columns_ok flds"
  shows "\<exists>g nd. matched_step md5 flds oldHashes (h, newData, hasDelete) m =
           Inr (h @ g, nd, hasDelete \<or> causes_deletion md5 flds oldHashes m)"
proof -
  obtain c where c: "clean_row flds m = Inr c" using clean_row_columns_ok [OF assms] by blast
  show ?thesis
  proof (cases "is_insert m")
    case True
    have "matched_step md5 flds oldHashes (h, newData, hasDelete) m =
        Inr (h @ [set_prop (set_prop c ''_hash'' (JStr (md5 c))) ''_added'' (JNum 1)],
             (if indexOf oldHashes (JStr (md5 c)) \<noteq> - 1 \<and> is_delete m
              then array_set newData (indexOf oldHashes (JStr (md5 c))) None else newData)
               @ [Some (length h)],
             hasDelete \<or> causes_deletion md5 flds oldHashes m)"
      using True
      by (auto simp add: matched_step_def c bind_err_def Let_def alloc_def causes_deletion_def
          indexOf_eq_minus_one)
    then show ?thesis by blast
  next
    case False
    have "matched_step md5 flds oldHashes (h, newData, hasDelete) m =
        Inr (h @ [],
             (if indexOf oldHashes (JStr (md5 c)) \<noteq> - 1 \<and> is_delete m
              then array_set newData (indexOf oldHashes (JStr (md5 c))) None else newData),
             hasDelete \<or> causes_deletion md5 flds oldHashes m)"
      using False
      by (auto simp add: matched_step_def c bind_err_def Let_def causes_deletion_def
          indexOf_eq_minus_one)
    then show ?thesis by blast
  qed
qed

lemma matched_loop_ok:
  assumes "columns_ok flds"
  shows "\<exists>g nd. forEach (matched_step md5 flds oldHashes) matched (h, newData, hasDelete) =
           Inr (h @ g, nd,
                hasDelete \<or> (\<exists>m\<in>set matched. causes_deletion md5 flds oldHashes m))"
proof (induction matched arbitrary: h newData hasDelete)
  case Nil
  have "forEach (matched_step md5 flds oldHashes) [] (h, newData, hasDelete) =
          Inr (h @ [], newData, hasDelete \<or> (\<exists>m\<in>set []. causes_deletion md5 flds oldHashes m))"
    by simp
  then show ?case by blast
next
  case (Cons m ms)
  obtain g nd where step: "matched_step md5 flds oldHashes (h, newData, hasDelete) m =
      Inr (h @ g, nd, hasDelete \<or> causes_deletion md5 flds oldHashes m)"
    using matched_step_ok [OF assms] by blast
  obtain g' nd' where rest:
    "forEach (matched_step md5 flds oldHashes) ms
       (h @ g, nd, hasDelete \<or> causes_deletion md5 flds oldHashes m) =
     Inr ((h @ g) @ g', nd',
          (hasDelete \<or> causes_deletion md5 flds oldHashes m) \<or>
          (\<exists>m\<in>set ms. causes_deletion md5 flds oldHashes m))"
    using Cons.IH by blast
  have "forEach (matched_step md5 flds oldHashes) (m # ms) (h, newData, hasDelete) =
      Inr (h @ (g @ g'), nd',
           hasDelete \<or> (\<exists>m\<in>set (m # ms). causes_deletion md5 flds oldHashes m))"
    by (simp add: step rest bind_err_def disj_assoc)
  then show ?case by blast
qed

section \<open>Claims on the supplied-payload path\<close>

text \<open>
  Claim C4. Whenever at least one matched row causes a deletion (a DELETE, or the
  \<^verbatim>\<open>old_data\<close> of an UPDATE, whose hash is found in the current data) and the parsed query
  has a LIMIT whose value equals the length of the current data, \<^verbatim>\<open>getDiffFromSupplied\<close>
  abandons the incremental path: its result is the result of \<^verbatim>\<open>getResultSetDiff\<close> on the
  current data. (The store that \<^verbatim>\<open>getResultSetDiff\<close> runs on holds, besides the objects of
  the call, the clean rows \<open>g\<close> that the loop created; nothing refers to them.)
\<close>

theorem limit_refusal:
  assumes "flattenNotifications notifications = Inr allRows"
    and "matchRows allRows prsd params = Inr matched"
    and "\<exists>m\<in>set matched.
           causes_deletion md (q_fields prsd) (map (row_hash h) currentData) m"
    and "q_limit prsd = Some (int (length currentData))"
  shows "\<exists>g. getDiffFromSupplied md cmp matchRows client h currentData notifications
               query prsd params
             = getResultSetDiff client (h @ g) currentData query params"
proof -
  obtain m where m: "m \<in> set matched"
    "causes_deletion md (q_fields prsd) (map (row_hash h) currentData) m"
    using assms(3) by blast
  then obtain c where "clean_row (q_fields prsd) m = Inr c"
    by (auto simp add: causes_deletion_def split: sum.splits)
  then have ok: "columns_ok (q_fields prsd)" by (rule clean_row_returns_columns_ok)
  have ne: "length matched \<noteq> 0" using m(1) by auto
  obtain g nd where loop:
    "forEach (matched_step md (q_fields prsd) (map (row_hash h) currentData)) matched
       (h, map Some currentData, False) =
     Inr (h @ g, nd,
          False \<or> (\<exists>m\<in>set matched.
             causes_deletion md (q_fields prsd) (map (row_hash h) currentData) m))"
    using matched_loop_ok [OF ok] by blast
  have "getDiffFromSupplied md cmp matchRows client h currentData notifications
               query prsd params
             = getResultSetDiff client (h @ g) currentData query params"
    using ne assms(3,4)
    by (simp add: getDiffFromSupplied_def assms(1,2) bind_err_def Let_def loop)
  then show ?thesis by blast
qed

theorem limit_refusal_witness:
  "flattenNotifications
     [\<lparr>p_op = JStr ''DELETE'', p_data = Some [[(''id'', JNum 2)]],
       p_new_data = None, p_old_data = None\<rparr>]
     = Inr [[(''id'', JNum 2), (''_op'', JStr ''DELETE''), (''_key'', JStr ''data''),
             (''_index'', JNum 0)]] \<and>
   causes_deletion (\<lambda>ob. if get_prop ob ''id'' = JNum 2 then ''h2'' else ''other'') [Star]
     (map (row_hash
        [[(''id'', JNum 1), (''_hash'', JStr ''h1''), (''_index'', JNum 1)],
         [(''id'', JNum 2), (''_hash'', JStr ''h2''), (''_index'', JNum 2)],
         [(''id'', JNum 3), (''_hash'', JStr ''h3''), (''_index'', JNum 3)]]) [0, 1, 2])
     [(''id'', JNum 2), (''_op'', JStr ''DELETE''), (''_key'', JStr ''data''),
      (''_index'', JNum 0)] \<and>
   q_limit \<lparr>q_fields = [Star], q_order = None, q_limit = Some 3\<rparr>
     = Some (int (length [0 :: nat, 1, 2])) \<and>
   (\<exists>g. getDiffFromSupplied
          (\<lambda>ob. if get_prop ob ''id'' = JNum 2 then ''h2'' else ''other'') (\<lambda>a b. 0)
          (\<lambda>rows p ps. Inr rows)
          (\<lambda>q hs ps. Inr [[(''_hash'', JStr ''h1'')], [(''_hash'', JStr ''h3'')]])
          [[(''id'', JNum 1), (''_hash'', JStr ''h1''), (''_index'', JNum 1)],
           [(''id'', JNum 2), (''_hash'', JStr ''h2''), (''_index'', JNum 2)],
           [(''id'', JNum 3), (''_hash'', JStr ''h3''), (''_index'', JNum 3)]]
          [0, 1, 2]
          [\<lparr>p_op = JStr ''DELETE'', p_data = Some [[(''id'', JNum 2)]],
            p_new_data = None, p_old_data = None\<rparr>]
          ''SELECT * FROM t LIMIT 3''
          \<lparr>q_fields = [Star], q_order = None, q_limit = Some 3\<rparr> []
        = getResultSetDiff
          (\<lambda>q hs ps. Inr [[(''_hash'', JStr ''h1'')], [(''_hash'', JStr ''h3'')]])
          ([[(''id'', JNum 1), (''_hash'', JStr ''h1''), (''_index'', JNum 1)],
            [(''id'', JNum 2), (''_hash'', JStr ''h2''), (''_index'', JNum 2)],
            [(''id'', JNum 3), (''_hash'', JStr ''h3''), (''_index'', JNum 3)]] @ g)
          [0, 1, 2] ''SELECT * FROM t LIMIT 3'' [])"
proof -
  let ?h = "[[(''id'', JNum 1), (''_hash'', JStr ''h1''), (''_index'', JNum 1)],
             [(''id'', JNum 2), (''_hash'', JStr ''h2''), (''_index'', JNum 2)],
             [(''id'', JNum 3), (''_hash'', JStr ''h3''), (''_index'', JNum 3)]]"
  let ?row = "[(''id'', JNum 2), (''_op'', JStr ''DELETE''), (''_key'', JStr ''data''),
               (''_index'', JNum 0)]"
  let ?ns = "[\<lparr>p_op = JStr ''DELETE'', p_data = Some [[(''id'', JNum 2)]],
               p_new_data = None, p_old_data = None\<rparr>]"
  let ?md5 = "\<lambda>ob. if get_prop ob ''id'' = JNum 2 then ''h2'' else ''other''"
  let ?prsd = "\<lparr>q_fields = [Star], q_order = None, q_limit = Some 3\<rparr>"
  let ?match = "\<lambda>(rows :: obj list) (p :: parsed) (ps :: jsval list). Inr rows :: error + obj list"
  have f: "flattenNotifications ?ns = Inr [?row]"
    by (simp add: flattenNotifications_def pushItem_def payload_get_def bind_err_def
        set_prop_def)
  have m: "?match [?row] ?prsd [] = Inr [?row]" by simp
  have c: "causes_deletion ?md5 [Star] (map (row_hash ?h) [0, 1, 2]) ?row"
    by (simp add: causes_deletion_def clean_row_def is_delete_def get_prop_def delete_prop_def
        row_hash_def deref_def)
  then have d: "\<exists>m\<in>set [?row].
      causes_deletion ?md5 (q_fields ?prsd) (map (row_hash ?h) [0, 1, 2]) m"
    by simp
  have l: "q_limit ?prsd = Some (int (length [0 :: nat, 1, 2]))" by simp
  from limit_refusal
         [where notifications = ?ns and allRows = "[?row]" and matchRows = ?match
            and prsd = ?prsd and params = "[]" and matched = "[?row]" and md = ?md5
            and h = ?h and currentData = "[0, 1, 2]", OF f m d l]
  have "\<exists>g. getDiffFromSupplied ?md5 (\<lambda>a b. 0) ?match
          (\<lambda>q hs ps. Inr [[(''_hash'', JStr ''h1'')], [(''_hash'', JStr ''h3'')]])
          ?h [0, 1, 2] ?ns ''SELECT * FROM t LIMIT 3'' ?prsd []
        = getResultSetDiff
          (\<lambda>q hs ps. Inr [[(''_hash'', JStr ''h1'')], [(''_hash'', JStr ''h3'')]])
          (?h @ g) [0, 1, 2] ''SELECT * FROM t LIMIT 3'' []"
    by blast
  with f c l show ?thesis by blast
qed

text \<open>
  Claim C9. For every notification payload given to \<^verbatim>\<open>getDiffFromSupplied\<close>, only the first
  element of its row array is used: \<^verbatim>\<open>flattenNotifications\<close> takes \<^verbatim>\<open>payload.data[0]\<close>, or
  \<^verbatim>\<open>payload.new_data[0]\<close> and \<^verbatim>\<open>payload.old_data[0]\<close> for an UPDATE, so the rows after the
  first never affect the flattened rows nor the result of \<^verbatim>\<open>getDiffFromSupplied\<close>.
\<close>

theorem only_first_row_used:
  "flattenNotifications (map first_row_only ps) = flattenNotifications ps \<and>
   getDiffFromSupplied md5 cmp matchRows client h currentData (map first_row_only ps)
       query prsd params
     = getDiffFromSupplied md5 cmp matchRows client h currentData ps query prsd params \<and>
   (p_op p \<noteq> JStr ''UPDATE'' \<and> p_data p = Some (row # rest) \<longrightarrow>
      flattenNotifications [p] =
        Inr [set_prop (set_prop (set_prop row ''_op'' (p_op p)) ''_key'' (JStr ''data''))
               ''_index'' (JNum 0)]) \<and>
   (p_op p = JStr ''UPDATE'' \<and> p_new_data p = Some (new_row # rest_new) \<and>
    p_old_data p = Some (old_row # rest_old) \<longrightarrow>
      flattenNotifications [p] =
        Inr [set_prop (set_prop (set_prop new_row ''_op'' (p_op p)) ''_key'' (JStr ''new_data''))
               ''_index'' (JNum 0),
             set_prop (set_prop (set_prop old_row ''_op'' (p_op p)) ''_key'' (JStr ''old_data''))
               ''_index'' (JNum 0)])"
  using flattenNotifications_first_row_only [of ps]
    getDiffFromSupplied_first_row_only [of md5 cmp matchRows client h currentData ps query prsd params]
  by (simp add: flattenNotifications_def pushItem_def payload_get_def bind_err_def)

theorem only_first_row_used_witness:
  "p_op \<lparr>p_op = JStr ''INSERT'', p_data = Some [[(''id'', JNum 1)], [(''id'', JNum 2)]],
         p_new_data = None, p_old_data = None\<rparr> \<noteq> JStr ''UPDATE'' \<and>
   flattenNotifications
     [\<lparr>p_op = JStr ''INSERT'', p_data = Some [[(''id'', JNum 1)], [(''id'', JNum 2)]],
       p_new_data = None, p_old_data = None\<rparr>]
   = Inr [set_prop (set_prop (set_prop [(''id'', JNum 1)] ''_op'' (JStr ''INSERT''))
                      ''_key'' (JStr ''data'')) ''_index'' (JNum 0)]"
proof -
  let ?p = "\<lparr>p_op = JStr ''INSERT'', p_data = Some [[(''id'', JNum 1)], [(''id'', JNum 2)]],
             p_new_data = None, p_old_data = None\<rparr>"
  have a: "p_op ?p \<noteq> JStr ''UPDATE''" by simp
  have b: "p_data ?p = Some ([(''id'', JNum 1)] # [[(''id'', JNum 2)]])" by simp
  from only_first_row_used [of "[]" _ _ _ _ _ _ _ _ _ ?p "[(''id'', JNum 1)]" "[[(''id'', JNum 2)]]"]
    a b
  have "flattenNotifications [?p] =
        Inr [set_prop (set_prop (set_prop [(''id'', JNum 1)] ''_op'' (p_op ?p)) ''_key''
               (JStr ''data'')) ''_index'' (JNum 0)]"
    by blast
  with a show ?thesis by simp
qed

section \<open>The differ and \<^verbatim>\<open>applyDiff\<close>: position by position\<close>

lemma first_index_less: "x \<in> set xs \<Longrightarrow> first_index xs x < length xs"
  by (induction xs) auto

lemma first_index_le_length: "first_index xs x \<le> length xs"
  by (induction xs) auto

lemma nth_first_index: "x \<in> set xs \<Longrightarrow> xs ! first_index xs x = x"
  by (induction xs) auto

lemma first_index_not_before:
  "i < first_index xs x \<Longrightarrow> xs ! i \<noteq> x"
proof (induction xs arbitrary: i)
  case Nil
  then show ?case by simp
next
  case (Cons y ys)
  then show ?case by (cases i) (auto split: if_splits)
qed

lemma first_index_nth_le: "i < length xs \<Longrightarrow> first_index xs (xs ! i) \<le> i"
proof (rule ccontr)
  assume "i < length xs" "\<not> first_index xs (xs ! i) \<le> i"
  then have "i < first_index xs (xs ! i)" by simp
  from first_index_not_before [OF this] show False by simp
qed

lemma first_index_nth_distinct:
  "distinct xs \<Longrightarrow> i < length xs \<Longrightarrow> first_index xs (xs ! i) = i"
proof -
  assume d: "distinct xs" and i: "i < length xs"
  have m: "xs ! i \<in> set xs" using i by simp
  have "xs ! first_index xs (xs ! i) = xs ! i" by (rule nth_first_index [OF m])
  with d i first_index_less [OF m] show ?thesis
    by (simp add: nth_eq_iff_index_eq)
qed

lemma first_index_first_iff:
  assumes "j < length xs"
  shows "first_index xs (xs ! j) = j \<longleftrightarrow> xs ! j \<notin> set (take j xs)"
proof
  assume eq: "first_index xs (xs ! j) = j"
  show "xs ! j \<notin> set (take j xs)"
  proof
    assume "xs ! j \<in> set (take j xs)"
    then obtain i where i: "i < j" "take j xs ! i = xs ! j"
      using assms by (auto simp add: in_set_conv_nth)
    then have "xs ! i = xs ! j" by simp
    moreover have "xs ! i \<noteq> xs ! j" using first_index_not_before [of i xs "xs ! j"] i eq by simp
    ultimately show False by simp
  qed
next
  assume n: "xs ! j \<notin> set (take j xs)"
  have le: "first_index xs (xs ! j) \<le> j" by (rule first_index_nth_le [OF assms])
  show "first_index xs (xs ! j) = j"
  proof (rule ccontr)
    assume "first_index xs (xs ! j) \<noteq> j"
    with le have lt: "first_index xs (xs ! j) < j" by simp
    have "xs ! first_index xs (xs ! j) = xs ! j"
      using nth_first_index [of "xs ! j" xs] assms by simp
    with lt assms have "xs ! j \<in> set (take j xs)"
      by (auto simp add: in_set_conv_nth intro!: exI [of _ "first_index xs (xs ! j)"])
    with n show False by simp
  qed
qed

lemma count_list_distinct: "distinct xs \<Longrightarrow> x \<in> set xs \<Longrightarrow> count_list xs x = 1"
  by (induction xs) auto

lemma count_list_pos_iff: "Suc 0 \<le> count_list xs x \<longleftrightarrow> x \<in> set xs"
  using count_list_0_iff [of xs x] by auto

lemma is_copied_distinct:
  assumes "distinct old" "j < length new"
  shows "is_copied old new j \<longleftrightarrow> new ! j \<in> set old \<and> first_index new (new ! j) \<noteq> j"
  using assms
  by (auto simp add: is_copied_def count_list_distinct count_list_pos_iff first_index_first_iff)

lemma position_cases:
  assumes "distinct old" "j < length new"
  shows "is_added old new j \<or> is_moved old new j \<or> is_copied old new j \<or> is_kept old new j"
  using assms
  by (auto simp add: is_added_def is_moved_def is_kept_def is_copied_distinct)

lemma added_excl:
  "is_added old new j \<Longrightarrow> \<not> is_moved old new j \<and> \<not> is_copied old new j \<and> \<not> is_kept old new j"
  by (simp add: is_added_def is_moved_def is_copied_def is_kept_def)

lemma moved_excl:
  assumes "distinct old" "j < length new" "is_moved old new j"
  shows "\<not> is_added old new j \<and> \<not> is_copied old new j \<and> \<not> is_kept old new j"
  using assms by (auto simp add: is_added_def is_moved_def is_kept_def is_copied_distinct)

lemma copied_excl:
  assumes "distinct old" "j < length new" "is_copied old new j"
  shows "\<not> is_added old new j \<and> \<not> is_moved old new j \<and> \<not> is_kept old new j"
  using assms by (auto simp add: is_added_def is_moved_def is_kept_def is_copied_distinct)

lemma kept_excl:
  assumes "distinct old" "j < length new" "is_kept old new j"
  shows "\<not> is_added old new j \<and> \<not> is_moved old new j \<and> \<not> is_copied old new j"
  using assms by (auto simp add: is_added_def is_moved_def is_kept_def is_copied_distinct)

lemma kept_facts:
  assumes "is_kept old new k"
  shows "k < length old" "old ! k = new ! k"
proof -
  have m: "new ! k \<in> set old" and f: "first_index old (new ! k) = k"
    using assms by (simp_all add: is_kept_def)
  from first_index_less [OF m] f show "k < length old" by simp
  from nth_first_index [OF m] f show "old ! k = new ! k" by simp
qed

lemma kept_not_moved_source:
  assumes "distinct old" "k < length new" "is_kept old new k"
    "j < length new" "is_moved old new j"
  shows "first_index old (new ! j) \<noteq> k"
proof
  assume eq: "first_index old (new ! j) = k"
  have mj: "new ! j \<in> set old" and fj: "first_index new (new ! j) = j"
    and nj: "first_index old (new ! j) \<noteq> j"
    using assms(5) by (simp_all add: is_moved_def)
  have fk: "first_index new (new ! k) = k" using assms(3) by (simp add: is_kept_def)
  have "old ! k = new ! j" using nth_first_index [OF mj] by (simp only: eq)
  also have "old ! k = new ! k" by (rule kept_facts(2) [OF assms(3)])
  finally have c: "new ! k = new ! j" .
  have "k = first_index new (new ! k)" by (simp only: fk)
  also have "\<dots> = first_index new (new ! j)" by (simp only: c)
  also have "\<dots> = j" by (rule fj)
  finally have "k = j" .
  with eq nj show False by simp
qed

lemma kept_not_removed:
  assumes "k < length new" "is_kept old new k"
  shows "\<not> is_removed old new k"
  using kept_facts [OF assms(2)] assms(1) by (simp add: is_removed_def)

lemma beyond_new_freed:
  assumes "distinct old" "length new \<le> k" "k < length old"
  shows "is_removed old new k \<or>
         (\<exists>j<length new. is_moved old new j \<and> first_index old (new ! j) = k)"
proof (cases "old ! k \<in> set new")
  case False
  then show ?thesis by (simp add: is_removed_def)
next
  case True
  let ?j = "first_index new (old ! k)"
  have j: "?j < length new" by (rule first_index_less [OF True])
  have nj: "new ! ?j = old ! k" by (rule nth_first_index [OF True])
  have fo: "first_index old (new ! ?j) = k"
    using first_index_nth_distinct [OF assms(1,3)] nj by simp
  have "is_moved old new ?j"
    using j nj fo assms(2,3) by (simp add: is_moved_def)
  with j fo show ?thesis by blast
qed

subsection \<open>The entries of the differ as writes to the working copy\<close>

lemma slot_null_writes:
  "slot (write_all (map (\<lambda>x. (key x, None)) xs) nr) m =
     (if int m \<in> key ` set xs then None else slot nr m)"
proof (induction xs arbitrary: nr)
  case Nil
  then show ?case by simp
next
  case (Cons x xs)
  show ?case
  proof (cases "key x < 0")
    case True
    then have "int m \<noteq> key x" by simp
    with True show ?thesis by (simp add: Cons.IH slot_array_set_neg)
  next
    case False
    then show ?thesis by (auto simp add: Cons.IH slot_array_set)
  qed
qed

lemma slot_value_writes:
  "slot (write_all (map (\<lambda>j. (int j, Some (v j))) js) nr) m =
     (if m \<in> set js then Some (v m) else slot nr m)"
proof (induction js arbitrary: nr)
  case Nil
  then show ?case by simp
next
  case (Cons j js)
  then show ?case by (auto simp add: slot_array_set)
qed

lemma slot_map_Some: "slot (map Some xs) k = (if k < length xs then Some (xs ! k) else None)"
  by (simp add: slot_def)

lemma enumerate_first_index:
  "distinct js \<Longrightarrow> enumerate n js = map (\<lambda>j. (n + first_index js j, j)) js"
proof (induction js arbitrary: n)
  case Nil
  then show ?case by simp
next
  case (Cons j js)
  have "enumerate (Suc n) js = map (\<lambda>x. (Suc n + first_index js x, x)) js"
    using Cons by simp
  also have "\<dots> = map (\<lambda>x. (n + first_index (j # js) x, x)) js"
    using Cons.prems by (auto intro!: map_cong)
  finally show ?case by simp
qed

lemma removed_writes_eq:
  "map (\<lambda>r. (r_index r - 1, None)) (diff_removed old new) =
     map (\<lambda>i. (int i, None)) (filter (is_removed old new) [0..<length old])"
  by (simp add: diff_removed_def comp_def)

lemma dealloc_writes_eq:
  "map (\<lambda>m. (m_old_index m - 1, None)) (diff_moved old new) =
     map (\<lambda>j. (int (first_index old (new ! j)), None)) (filter (is_moved old new) [0..<length new])"
  by (simp add: diff_moved_def comp_def)

lemma moved_writes_eq:
  "moved_writes data (diff_moved old new) =
     map (\<lambda>j. (int j, Some (data ! first_index old (new ! j))))
       (filter (is_moved old new) [0..<length new])"
  by (simp add: moved_writes_def diff_moved_def comp_def source_row_def)

lemma copied_writes_eq:
  "copied_writes n (diff_copied old new) =
     map (\<lambda>j. (int j, Some (n + first_index (filter (is_copied old new) [0..<length new]) j)))
       (filter (is_copied old new) [0..<length new])"
proof -
  let ?js = "filter (is_copied old new) [0..<length new]"
  have d: "distinct ?js" by simp
  have "enumerate n (diff_copied old new) =
          map (\<lambda>(a, j). (a, Copied (int (first_index old (new ! j)) + 1) (int j + 1)))
            (enumerate n ?js)"
    by (simp add: diff_copied_def enumerate_eq_zip zip_map2)
  then show ?thesis
    by (simp add: copied_writes_def enumerate_first_index [OF d] comp_def)
qed

lemma added_writes_eq:
  assumes "\<forall>j<length new. is_added old new j \<longrightarrow>
             get_prop (deref h (rows ! j)) ''_index'' = JNum (int j + 1)"
  shows "added_writes h (diff_added old new rows) =
           map (\<lambda>j. (int j, Some (rows ! j))) (filter (is_added old new) [0..<length new])"
proof -
  have "List.map_filter
          (\<lambda>a. map_option (\<lambda>i. (i, Some a)) (minus_one (get_prop (deref h a) ''_index'')))
          (map (\<lambda>j. rows ! j) js) = map (\<lambda>j. (int j, Some (rows ! j))) js"
    if "\<forall>j\<in>set js. get_prop (deref h (rows ! j)) ''_index'' = JNum (int j + 1)" for js
    using that by (induction js) (simp_all add: minus_one_def to_number_def)
  from this [of "filter (is_added old new) [0..<length new]"] assms show ?thesis
    by (simp add: added_writes_def diff_added_def)
qed

subsection \<open>The sources of the differ's entries\<close>

lemma list_of_Some [simp]: "list_of (Some xs) = xs"
  by (simp add: list_of_def)

lemma diff_lists_sources_ok:
  "sources_ok old (diff_lists (map (row_hash h) old) nh rows)"
proof -
  have "in_range old (int (first_index (map (row_hash h) old) x) + 1)"
    if "x \<in> set (map (row_hash h) old)" for x
    using first_index_less [OF that] by (simp add: in_range_def)
  then show ?thesis
    by (auto simp add: sources_ok_def diff_lists_def diff_moved_def diff_copied_def
        is_moved_def is_copied_def)
qed

text \<open>Addresses of old rows are told apart by their hashes.\<close>

lemma old_addr_inj:
  assumes "distinct (map (row_hash h) old)" "i < length old" "i' < length old"
    "old ! i = old ! i'"
  shows "i = i'"
proof -
  have "map (row_hash h) old ! i = map (row_hash h) old ! i'"
    using assms(2,3,4) by simp
  moreover have "i < length (map (row_hash h) old)" "i' < length (map (row_hash h) old)"
    using assms(2,3) by simp_all
  ultimately show ?thesis using assms(1) nth_eq_iff_index_eq by blast
qed

lemma moved_sources_diff_lists:
  "moved_sources old (diff_lists oh nh rows) =
     (\<lambda>j. old ! first_index oh (nh ! j)) ` {j. j < length nh \<and> is_moved oh nh j}"
  by (auto simp add: moved_sources_def diff_lists_def diff_moved_def source_row_def image_iff)

lemma moved_source_hash:
  assumes "j < length new" "is_moved (map (row_hash h) old) (map (row_hash h) new) j"
  shows "first_index (map (row_hash h) old) (map (row_hash h) new ! j) < length old"
    and "row_hash h (old ! first_index (map (row_hash h) old) (map (row_hash h) new ! j))
           = row_hash h (new ! j)"
proof -
  let ?oh = "map (row_hash h) old" and ?nh = "map (row_hash h) new"
  have m: "?nh ! j \<in> set ?oh" using assms(2) by (simp add: is_moved_def)
  from first_index_less [OF m] show p: "first_index ?oh (?nh ! j) < length old" by simp
  from nth_first_index [OF m] p assms(1)
  show "row_hash h (old ! first_index ?oh (?nh ! j)) = row_hash h (new ! j)" by simp
qed

lemma added_not_moved_source:
  assumes "k < length new" "is_added (map (row_hash h) old) (map (row_hash h) new) k"
  shows "new ! k \<notin> moved_sources old (diff_lists (map (row_hash h) old) (map (row_hash h) new) rows)"
proof
  let ?oh = "map (row_hash h) old" and ?nh = "map (row_hash h) new"
  assume "new ! k \<in> moved_sources old (diff_lists ?oh ?nh rows)"
  then obtain j where j: "j < length new" "is_moved ?oh ?nh j"
    and eq: "new ! k = old ! first_index ?oh (?nh ! j)"
    by (auto simp add: moved_sources_diff_lists)
  from moved_source_hash [OF j] eq
  have "row_hash h (new ! k) = ?oh ! first_index ?oh (?nh ! j)"
    and "first_index ?oh (?nh ! j) < length ?oh" by simp_all
  then have "row_hash h (new ! k) \<in> set ?oh" by (metis nth_mem)
  with assms show False by (simp add: is_added_def)
qed

lemma kept_not_moved_source_addr:
  assumes d: "distinct (map (row_hash h) old)" and k: "k < length new"
    and kept: "is_kept (map (row_hash h) old) (map (row_hash h) new) k"
  shows "old ! k \<notin> moved_sources old (diff_lists (map (row_hash h) old) (map (row_hash h) new) rows)"
proof
  let ?oh = "map (row_hash h) old" and ?nh = "map (row_hash h) new"
  assume "old ! k \<in> moved_sources old (diff_lists ?oh ?nh rows)"
  then obtain j where j: "j < length new" "is_moved ?oh ?nh j"
    and eq: "old ! k = old ! first_index ?oh (?nh ! j)"
    by (auto simp add: moved_sources_diff_lists)
  have ko: "k < length old" using kept_facts(1) [OF kept] by simp
  from old_addr_inj [OF d ko moved_source_hash(1) [OF j] eq]
  have "first_index ?oh (?nh ! j) = k" by simp
  moreover have "first_index ?oh (?nh ! j) \<noteq> k"
    using kept_not_moved_source [OF d _ kept _ j(2)] k j(1) by simp
  ultimately show False by simp
qed

text \<open>The store after the moved phase, at the source of the moved entry for position k.\<close>

lemma moved_heap_at_source:
  assumes d: "distinct (map (row_hash h) old)" and k: "k < length new"
    and mv: "is_moved (map (row_hash h) old) (map (row_hash h) new) k"
    and len: "length h \<le> length h3" and v: "valid_refs h old"
  shows "deref (moved_heap h3 old (diff_moved (map (row_hash h) old) (map (row_hash h) new)))
           (old ! first_index (map (row_hash h) old) (map (row_hash h) new ! k))
         = set_prop (deref h3 (old ! first_index (map (row_hash h) old) (map (row_hash h) new ! k)))
             ''_index'' (JNum (int k + 1))"
proof -
  let ?oh = "map (row_hash h) old" and ?nh = "map (row_hash h) new"
  let ?p = "first_index ?oh (?nh ! k)"
  let ?ms = "diff_moved ?oh ?nh"
  have p: "?p < length old" by (rule moved_source_hash(1) [OF k mv])
  have "old ! ?p \<in> set old" using p by simp
  then have "old ! ?p < length h" using v by (simp add: valid_refs_def)
  then have a: "old ! ?p < length h3" using len by simp
  have src: "old ! ?p \<in> (\<lambda>m. source_row old (m_old_index m)) ` set ?ms"
    using k mv by (auto simp add: diff_moved_def source_row_def image_iff intro!: bexI [of _ k])
  from moved_heap_source [OF src a]
  obtain m where m: "m \<in> set ?ms" "source_row old (m_old_index m) = old ! ?p"
    "deref (moved_heap h3 old ?ms) (old ! ?p)
       = set_prop (deref h3 (old ! ?p)) ''_index'' (JNum (m_new_index m))"
    by blast
  from m(1) obtain j where j: "j < length new" "is_moved ?oh ?nh j"
    and mj: "m = Moved (int (first_index ?oh (?nh ! j)) + 1) (int j + 1)"
    by (auto simp add: diff_moved_def)
  have "old ! first_index ?oh (?nh ! j) = old ! ?p"
    using m(2) by (simp add: mj source_row_def)
  from old_addr_inj [OF d moved_source_hash(1) [OF j] p this]
  have pj: "first_index ?oh (?nh ! j) = ?p" .
  have "?nh ! j = ?oh ! first_index ?oh (?nh ! j)"
    using j(2) by (simp add: is_moved_def nth_first_index)
  also have "\<dots> = ?oh ! ?p" by (simp only: pj)
  also have "\<dots> = ?nh ! k" using mv by (simp add: is_moved_def nth_first_index)
  finally have same: "?nh ! j = ?nh ! k" .
  have "j = first_index ?nh (?nh ! j)" using j(2) by (simp add: is_moved_def)
  also have "\<dots> = first_index ?nh (?nh ! k)" by (simp only: same)
  also have "\<dots> = k" using mv by (simp add: is_moved_def)
  finally have "j = k" .
  with m(3) mj show ?thesis by simp
qed

subsection \<open>The store and the slots after the write phases\<close>

lemma diff_store_added:
  assumes "valid_refs h new" "k < length new"
    "is_added (map (row_hash h) old) (map (row_hash h) new) k"
  shows "deref (diff_store h old new) (new ! k) = deref h (new ! k)"
proof -
  let ?oh = "map (row_hash h) old" and ?nh = "map (row_hash h) new"
  have "new ! k \<notin> moved_sources old (diff_lists ?oh ?nh new)"
    by (rule added_not_moved_source [OF assms(2,3)])
  then have "new ! k \<notin> (\<lambda>m. source_row old (m_old_index m)) ` set (diff_moved ?oh ?nh)"
    by (simp add: moved_sources_def diff_lists_def)
  from moved_heap_other [OF this]
  have "deref (diff_store h old new) (new ! k)
          = deref (h @ clone_rows h old (diff_copied ?oh ?nh)) (new ! k)"
    by (simp add: diff_store_def)
  moreover have "new ! k < length h" using assms(1,2) by (simp add: valid_refs_def)
  ultimately show ?thesis by (simp add: deref_append)
qed

lemma diff_store_kept:
  assumes "distinct (map (row_hash h) old)" "valid_refs h old" "k < length new"
    "is_kept (map (row_hash h) old) (map (row_hash h) new) k"
  shows "deref (diff_store h old new) (old ! k) = deref h (old ! k)"
proof -
  let ?oh = "map (row_hash h) old" and ?nh = "map (row_hash h) new"
  have "old ! k \<notin> moved_sources old (diff_lists ?oh ?nh new)"
    by (rule kept_not_moved_source_addr [OF assms(1,3,4)])
  then have "old ! k \<notin> (\<lambda>m. source_row old (m_old_index m)) ` set (diff_moved ?oh ?nh)"
    by (simp add: moved_sources_def diff_lists_def)
  from moved_heap_other [OF this]
  have "deref (diff_store h old new) (old ! k)
          = deref (h @ clone_rows h old (diff_copied ?oh ?nh)) (old ! k)"
    by (simp add: diff_store_def)
  moreover have "k < length old" using kept_facts(1) [OF assms(4)] by simp
  then have "old ! k < length h" using assms(2) by (simp add: valid_refs_def)
  ultimately show ?thesis by (simp add: deref_append)
qed

lemma diff_store_moved:
  assumes "distinct (map (row_hash h) old)" "valid_refs h old" "k < length new"
    "is_moved (map (row_hash h) old) (map (row_hash h) new) k"
  shows "deref (diff_store h old new)
           (old ! first_index (map (row_hash h) old) (map (row_hash h) new ! k))
         = set_prop (deref h (old ! first_index (map (row_hash h) old) (map (row_hash h) new ! k)))
             ''_index'' (JNum (int k + 1))"
proof -
  let ?oh = "map (row_hash h) old" and ?nh = "map (row_hash h) new"
  let ?h3 = "h @ clone_rows h old (diff_copied ?oh ?nh)"
  have len: "length h \<le> length ?h3" by simp
  have p: "first_index ?oh (?nh ! k) < length old"
    by (rule moved_source_hash(1) [OF assms(3,4)])
  then have "old ! first_index ?oh (?nh ! k) \<in> set old" by simp
  then have a: "old ! first_index ?oh (?nh ! k) < length h"
    using assms(2) by (simp add: valid_refs_def)
  from moved_heap_at_source [OF assms(1,3,4) len assms(2)] a
  show ?thesis by (simp add: diff_store_def deref_append)
qed

lemma diff_store_copied:
  assumes "valid_refs h old" "k < length new"
    "is_copied (map (row_hash h) old) (map (row_hash h) new) k"
  shows "deref (diff_store h old new) (length h + first_index (copied_positions h old new) k)
         = set_prop (deref h (old ! first_index (map (row_hash h) old) (map (row_hash h) new ! k)))
             ''_index'' (JNum (int k + 1))"
proof -
  let ?oh = "map (row_hash h) old" and ?nh = "map (row_hash h) new"
  let ?js = "copied_positions h old new"
  let ?cl = "clone_rows h old (diff_copied ?oh ?nh)"
  let ?c = "first_index ?js k"
  have kin: "k \<in> set ?js" using assms(2,3) by (simp add: copied_positions_def)
  have c: "?c < length ?js" by (rule first_index_less [OF kin])
  have jc: "?js ! ?c = k" by (rule nth_first_index [OF kin])
  have lcl: "length ?cl = length ?js"
    by (simp add: clone_rows_def diff_copied_def copied_positions_def)
  have "length h + ?c \<notin> (\<lambda>m. source_row old (m_old_index m)) ` set (diff_moved ?oh ?nh)"
  proof
    assume "length h + ?c \<in> (\<lambda>m. source_row old (m_old_index m)) ` set (diff_moved ?oh ?nh)"
    then obtain j where j: "j < length new" "is_moved ?oh ?nh j"
      and eq: "length h + ?c = old ! first_index ?oh (?nh ! j)"
      by (auto simp add: diff_moved_def source_row_def)
    have "first_index ?oh (?nh ! j) < length old" by (rule moved_source_hash(1) [OF j])
    then have "old ! first_index ?oh (?nh ! j) \<in> set old" by simp
    then have "old ! first_index ?oh (?nh ! j) < length h"
      using assms(1) by (simp add: valid_refs_def)
    with eq show False by simp
  qed
  from moved_heap_other [OF this]
  have "deref (diff_store h old new) (length h + ?c) = deref (h @ ?cl) (length h + ?c)"
    by (simp add: diff_store_def)
  also have "\<dots> = ?cl ! ?c" using c lcl by (simp add: deref_def nth_append)
  also have "\<dots> = set_prop (deref h (old ! first_index ?oh (?nh ! k))) ''_index''
                      (JNum (int k + 1))"
    using c jc
    by (simp add: clone_rows_def diff_copied_def copied_positions_def source_row_def)
  finally show ?thesis .
qed

lemma phases_diff_lists:
  assumes "valid_refs h new" "added_indexed h old new"
  shows "applyDiff_phases h old (diff_lists (map (row_hash h) old) (map (row_hash h) new) new)
           = (diff_store h old new, compact (diff_slots h old new))"
proof -
  let ?oh = "map (row_hash h) old" and ?nh = "map (row_hash h) new"
  have idx: "\<forall>j<length ?nh. is_added ?oh ?nh j \<longrightarrow>
               get_prop (deref (diff_store h old new) (new ! j)) ''_index'' = JNum (int j + 1)"
    using assms diff_store_added [of h new _ old] by (simp add: added_indexed_def)
  have aw: "added_writes (diff_store h old new) (diff_added ?oh ?nh new)
              = map (\<lambda>j. (int j, Some (new ! j))) (filter (is_added ?oh ?nh) [0..<length new])"
    using added_writes_eq [OF idx] by simp
  show ?thesis
    using aw
    by (simp add: applyDiff_phases_def Let_def phase_null_removed_def phase_null_moved_def
        phase_write_copied_def phase_write_moved_def phase_write_added_def diff_lists_def
        removed_writes_eq dealloc_writes_eq copied_writes_eq moved_writes_eq
        diff_store_def diff_slots_def copied_positions_def)
qed

lemma diff_slots_at:
  "slot (diff_slots h old new) k =
     (if k < length new \<and> is_added (map (row_hash h) old) (map (row_hash h) new) k
        then Some (new ! k)
      else if k < length new \<and> is_moved (map (row_hash h) old) (map (row_hash h) new) k
        then Some (old ! first_index (map (row_hash h) old) (map (row_hash h) new ! k))
      else if k < length new \<and> is_copied (map (row_hash h) old) (map (row_hash h) new) k
        then Some (length h + first_index (copied_positions h old new) k)
      else if \<exists>j<length new. is_moved (map (row_hash h) old) (map (row_hash h) new) j \<and>
                first_index (map (row_hash h) old) (map (row_hash h) new ! j) = k
        then None
      else if k < length old \<and> is_removed (map (row_hash h) old) (map (row_hash h) new) k
        then None
      else if k < length old then Some (old ! k) else None)"
  unfolding diff_slots_def slot_value_writes slot_null_writes slot_map_Some
  by (auto simp add: copied_positions_def image_iff)

subsection \<open>The result of \<^verbatim>\<open>applyDiff\<close> on the differ's lists\<close>

lemma final_rows_in:
  assumes d: "distinct (map (row_hash h) old)" and vo: "valid_refs h old"
    and vn: "valid_refs h new" and k: "k < length new"
  shows "\<exists>a. slot (diff_slots h old new) k = Some a \<and>
             deref (diff_store h old new) a = rebuilt h old new k"
proof -
  let ?oh = "map (row_hash h) old" and ?nh = "map (row_hash h) new"
  have k': "k < length ?nh" using k by simp
  from position_cases [OF d k']
  consider (added) "is_added ?oh ?nh k" | (moved) "is_moved ?oh ?nh k"
    | (copied) "is_copied ?oh ?nh k" | (kept) "is_kept ?oh ?nh k"
    by blast
  then show ?thesis
  proof cases
    case added
    have "slot (diff_slots h old new) k = Some (new ! k)"
      using added k by (simp add: diff_slots_at)
    moreover have "deref (diff_store h old new) (new ! k) = rebuilt h old new k"
      using diff_store_added [OF vn k added] added by (simp add: rebuilt_def)
    ultimately show ?thesis by blast
  next
    case moved
    note ex = moved_excl [OF d k' moved]
    have "slot (diff_slots h old new) k = Some (old ! first_index ?oh (?nh ! k))"
      using moved ex k by (simp add: diff_slots_at)
    moreover have "deref (diff_store h old new) (old ! first_index ?oh (?nh ! k))
                     = rebuilt h old new k"
      using diff_store_moved [OF d vo k moved] ex by (simp add: rebuilt_def)
    ultimately show ?thesis by blast
  next
    case copied
    note ex = copied_excl [OF d k' copied]
    have "slot (diff_slots h old new) k
            = Some (length h + first_index (copied_positions h old new) k)"
      using copied ex k by (simp add: diff_slots_at)
    moreover have "deref (diff_store h old new)
                     (length h + first_index (copied_positions h old new) k)
                     = rebuilt h old new k"
      using diff_store_copied [OF vo k copied] ex by (simp add: rebuilt_def)
    ultimately show ?thesis by blast
  next
    case kept
    note ex = kept_excl [OF d k' kept]
    have ns: "\<not> (\<exists>j<length new. is_moved ?oh ?nh j \<and> first_index ?oh (?nh ! j) = k)"
      using kept_not_moved_source [OF d k' kept] by auto
    have nr: "\<not> is_removed ?oh ?nh k" by (rule kept_not_removed [OF k' kept])
    have ko: "k < length old" using kept_facts(1) [OF kept] by simp
    have "slot (diff_slots h old new) k = Some (old ! k)"
      using ex ns nr ko by (simp add: diff_slots_at)
    moreover have "deref (diff_store h old new) (old ! k) = rebuilt h old new k"
      using diff_store_kept [OF d vo k kept] ex kept by (simp add: rebuilt_def)
    ultimately show ?thesis by blast
  qed
qed

lemma final_rows_out:
  assumes d: "distinct (map (row_hash h) old)" and k: "length new \<le> k"
  shows "slot (diff_slots h old new) k = None"
proof (cases "k < length old")
  case False
  with k show ?thesis by (simp add: diff_slots_at)
next
  case True
  let ?oh = "map (row_hash h) old" and ?nh = "map (row_hash h) new"
  have "is_removed ?oh ?nh k \<or> (\<exists>j<length ?nh. is_moved ?oh ?nh j \<and> first_index ?oh (?nh ! j) = k)"
    using beyond_new_freed [OF d, of ?nh k] k True by simp
  with k True show ?thesis by (auto simp add: diff_slots_at)
qed

lemma applyDiff_diff_lists:
  assumes d: "distinct (map (row_hash h) old)" and vo: "valid_refs h old"
    and vn: "valid_refs h new" and ai: "added_indexed h old new"
  shows "\<exists>h' res.
           applyDiff h old (diff_lists (map (row_hash h) old) (map (row_hash h) new) new)
             = Inr (h', res) \<and>
           map (deref h') res = map (rebuilt h old new) [0..<length new]"
proof -
  let ?D = "diff_lists (map (row_hash h) old) (map (row_hash h) new) new"
  let ?f = "\<lambda>k. the (slot (diff_slots h old new) k)"
  have run: "applyDiff h old ?D = Inr (diff_store h old new, compact (diff_slots h old new))"
    using applyDiff_ok [OF vo diff_lists_sources_ok] phases_diff_lists [OF vn ai] by simp
  have a: "\<forall>k<length new. slot (diff_slots h old new) k = Some (?f k)"
    using final_rows_in [OF d vo vn] by fastforce
  have b: "\<forall>k\<ge>length new. slot (diff_slots h old new) k = None"
    using final_rows_out [OF d] by blast
  have c: "compact (diff_slots h old new) = map ?f [0..<length new]"
    by (rule compact_slots [OF a b])
  have "deref (diff_store h old new) (?f k) = rebuilt h old new k" if "k < length new" for k
    using final_rows_in [OF d vo vn that] by auto
  then have "map (deref (diff_store h old new)) (compact (diff_slots h old new))
               = map (rebuilt h old new) [0..<length new]"
    by (simp add: c)
  with run show ?thesis by blast
qed







subsection \<open>\<^verbatim>\<open>getResultSetDiff\<close>\<close>

lemma rebuilt_index:
  assumes io: "indices_ok h old" and ai: "added_indexed h old new" and k: "k < length new"
  shows "get_prop (rebuilt h old new k) ''_index'' = JNum (int k + 1)"
proof -
  let ?oh = "map (row_hash h) old" and ?nh = "map (row_hash h) new"
  show ?thesis
  proof (cases "is_added ?oh ?nh k")
    case True
    with ai k show ?thesis by (simp add: rebuilt_def added_indexed_def)
  next
    case False
    show ?thesis
    proof (cases "is_kept ?oh ?nh k")
      case True
      have "k < length old" using kept_facts(1) [OF True] by simp
      with io have "get_prop (deref h (old ! k)) ''_index'' = JNum (int k + 1)"
        by (simp add: indices_ok_def)
      with True False show ?thesis by (simp add: rebuilt_def)
    next
      case nk: False
      with False show ?thesis by (simp add: rebuilt_def)
    qed
  qed
qed

lemma row_hash_append: "valid_refs h as \<Longrightarrow> map (row_hash (h @ g)) as = map (row_hash h) as"
  by (simp add: valid_refs_def row_hash_def deref_append)

lemma indices_ok_append: "valid_refs h as \<Longrightarrow> indices_ok (h @ g) as = indices_ok h as"
  by (auto simp add: valid_refs_def indices_ok_def deref_append)

lemma valid_refs_append: "valid_refs h as \<Longrightarrow> valid_refs (h @ g) as"
  by (auto simp add: valid_refs_def)

lemma valid_refs_alloc_all: "valid_refs (h @ rows) [length h..<length h + length rows]"
  by (simp add: valid_refs_def)


lemma getResultSetDiff_unfold:
  assumes "client query (map (row_hash h) old) params = Inr rows" "valid_refs h old"
  shows "getResultSetDiff client h old query params =
     (case collectionDiff (h @ rows) (map (row_hash (h @ rows)) old)
             [length h..<length h + length rows] of
        None \<Rightarrow> Inr (h @ rows, None)
      | Some d \<Rightarrow>
          bind_err (applyDiff (h @ rows) old d) (\<lambda>r. Inr (fst r, Some (d, snd r))))"
  by (simp add: getResultSetDiff_def Let_def assms(1) bind_err_def alloc_all_def
      row_hash_append [OF assms(2)])

lemma collectionDiff_cases:
  "collectionDiff h oh rows = None \<and>
     diff_lists oh (map (row_hash h) rows) rows
       = \<lparr>removed = Some [], moved = Some [], copied = Some [], added = Some []\<rparr> \<or>
   collectionDiff h oh rows = Some (diff_lists oh (map (row_hash h) rows) rows)"
  by (simp add: collectionDiff_def Let_def diff_lists_def)

lemma getResultSetDiff_indices:
  assumes q: "client query (map (row_hash h) old) params = Inr rows"
    and vo: "valid_refs h old" and d: "distinct (map (row_hash h) old)"
    and io: "indices_ok h old"
    and ai: "added_indexed (h @ rows) old [length h..<length h + length rows]"
  shows "\<exists>h' r. getResultSetDiff client h old query params = Inr (h', r) \<and>
           (case r of None \<Rightarrow> True | Some dd \<Rightarrow> indices_ok h' (snd dd))"
proof -
  let ?h1 = "h @ rows" and ?rr = "[length h..<length h + length rows]"
  let ?D = "diff_lists (map (row_hash ?h1) old) (map (row_hash ?h1) ?rr) ?rr"
  have d1: "distinct (map (row_hash ?h1) old)" using d by (simp add: row_hash_append [OF vo])
  have io1: "indices_ok ?h1 old" using io by (simp add: indices_ok_append [OF vo])
  from applyDiff_diff_lists [OF d1 valid_refs_append [OF vo] valid_refs_alloc_all ai]
  obtain h' res where r: "applyDiff ?h1 old ?D = Inr (h', res)"
    "map (deref h') res = map (rebuilt ?h1 old ?rr) [0..<length ?rr]"
    by blast
  have len: "length res = length ?rr" using r(2) by (metis length_map length_upt diff_zero)
  have ok: "indices_ok h' res"
    unfolding indices_ok_def
  proof (intro allI impI)
    fix i assume i: "i < length res"
    then have "deref h' (res ! i) = rebuilt ?h1 old ?rr i"
      using r(2) len by (metis nth_map length_map nth_upt add_0 length_upt diff_zero)
    with rebuilt_index [OF io1 ai, of i] i len
    show "get_prop (deref h' (res ! i)) ''_index'' = JNum (int i + 1)" by simp
  qed
  from collectionDiff_cases [of ?h1 "map (row_hash ?h1) old" ?rr]
  show ?thesis
  proof
    assume "collectionDiff ?h1 (map (row_hash ?h1) old) ?rr = None \<and>
            ?D = \<lparr>removed = Some [], moved = Some [], copied = Some [], added = Some []\<rparr>"
    then show ?thesis by (simp add: getResultSetDiff_unfold [where client = client and query = query and params = params, OF q vo])
  next
    assume "collectionDiff ?h1 (map (row_hash ?h1) old) ?rr = Some ?D"
    with r(1) ok show ?thesis
      by (simp add: getResultSetDiff_unfold [where client = client and query = query and params = params, OF q vo] bind_err_def)
  qed
qed

subsection \<open>The incremental path of \<^verbatim>\<open>getDiffFromSupplied\<close>\<close>

lemma compact_Cons_None [simp]: "compact (None # xs) = compact xs"
  by (simp add: compact_def)

lemma compact_Cons_Some [simp]: "compact (Some a # xs) = a # compact xs"
  by (simp add: compact_def)

lemma compact_Nil [simp]: "compact [] = []"
  by (simp add: compact_def)

lemma compact_replicate_None [simp]: "compact (replicate n None) = []"
  by (induction n) simp_all

lemma set_compact_update: "set (compact (xs[n := None])) \<subseteq> set (compact xs)"
proof (induction xs arbitrary: n)
  case Nil
  then show ?case by simp
next
  case (Cons x xs)
  show ?case
  proof (cases n)
    case 0
    then show ?thesis by (cases x) auto
  next
    case (Suc m)
    with Cons.IH [of m] show ?thesis by (cases x) auto
  qed
qed

lemma distinct_compact_update: "distinct (compact xs) \<Longrightarrow> distinct (compact (xs[n := None]))"
proof (induction xs arbitrary: n)
  case Nil
  then show ?case by simp
next
  case (Cons x xs)
  show ?case
  proof (cases n)
    case 0
    with Cons.prems show ?thesis by (cases x) auto
  next
    case (Suc m)
    with Cons set_compact_update [of xs m] show ?thesis by (cases x) auto
  qed
qed

lemma rows_distinct_array_set_None:
  assumes "rows_distinct h nd"
  shows "rows_distinct h (array_set nd i None)"
proof -
  have "set (compact (array_set nd i None)) \<subseteq> set (compact nd)"
    using set_compact_update [of nd "nat i"] by (auto simp add: array_set_def compact_append)
  moreover have "distinct (compact (array_set nd i None))"
    using assms distinct_compact_update [of nd "nat i"]
    by (auto simp add: array_set_def compact_append rows_distinct_def)
  ultimately show ?thesis using assms by (auto simp add: rows_distinct_def valid_refs_def)
qed

lemma rows_distinct_push:
  assumes "rows_distinct h nd"
  shows "rows_distinct (h @ [ob]) (nd @ [Some (length h)])"
  using assms by (auto simp add: rows_distinct_def valid_refs_def compact_append)

lemma matched_step_rows_distinct:
  assumes "matched_step md5 flds oh (h, nd, dl) m = Inr (h1, nd1, dl1)" "rows_distinct h nd"
  shows "rows_distinct h1 nd1"
proof -
  obtain c where c: "clean_row flds m = Inr c"
    using assms(1) by (cases "clean_row flds m") (simp_all add: matched_step_def bind_err_def)
  let ?nd = "if indexOf oh (JStr (md5 c)) \<noteq> - 1 \<and> is_delete m
             then array_set nd
                    (indexOf oh (get_prop (set_prop c ''_hash'' (JStr (md5 c))) ''_hash'')) None
             else nd"
  have nd: "rows_distinct h ?nd"
    using assms(2) rows_distinct_array_set_None by simp
  show ?thesis
  proof (cases "is_insert m")
    case True
    with assms(1) have "h1 = h @ [set_prop (set_prop c ''_hash'' (JStr (md5 c))) ''_added'' (JNum 1)]"
      "nd1 = ?nd @ [Some (length h)]"
      by (simp_all add: matched_step_def c bind_err_def Let_def alloc_def)
    with rows_distinct_push [OF nd] show ?thesis by simp
  next
    case False
    with assms(1) have "h1 = h" "nd1 = ?nd"
      by (simp_all add: matched_step_def c bind_err_def Let_def)
    with nd show ?thesis by simp
  qed
qed

lemma matched_loop_rows_distinct:
  assumes "forEach (matched_step md5 flds oh) ms (h, nd, dl) = Inr (h1, nd1, dl1)"
    "rows_distinct h nd"
  shows "rows_distinct h1 nd1"
  using assms
proof (induction ms arbitrary: h nd dl)
  case Nil
  then show ?case by simp
next
  case (Cons m ms)
  from Cons.prems(1) obtain s where s: "matched_step md5 flds oh (h, nd, dl) m = Inr s"
    and rest: "forEach (matched_step md5 flds oh) ms s = Inr (h1, nd1, dl1)"
    by (cases "matched_step md5 flds oh (h, nd, dl) m") (simp_all add: bind_err_def)
  obtain h2 nd2 dl2 where s2: "s = (h2, nd2, dl2)" by (cases s) auto
  from matched_step_rows_distinct [OF s [unfolded s2] Cons.prems(2)]
  have "rows_distinct h2 nd2" .
  from Cons.IH [OF rest [unfolded s2] this] show ?case .
qed

lemma set_insert_sorted: "set (insert_sorted c x ys) = insert x (set ys)"
  by (induction ys) auto

lemma distinct_insert_sorted: "distinct (insert_sorted c x ys) = (x \<notin> set ys \<and> distinct ys)"
  by (induction ys) (auto simp add: set_insert_sorted)

lemma foldl_insert_sorted:
  "set (foldl (\<lambda>sorted a. insert_sorted c a sorted) acc xs) = set acc \<union> set xs \<and>
   (distinct (foldl (\<lambda>sorted a. insert_sorted c a sorted) acc xs) = distinct (acc @ xs))"
  by (induction xs arbitrary: acc) (auto simp add: set_insert_sorted distinct_insert_sorted)

lemma sortByOrder_set: "set (sortByOrder cmp h xs props orders) = set xs"
  using foldl_insert_sorted [of _ "[]" xs] by (simp add: sortByOrder_def)

lemma sortByOrder_distinct: "distinct (sortByOrder cmp h xs props orders) = distinct xs"
  using foldl_insert_sorted [of _ "[]" xs] by (simp add: sortByOrder_def)

lemma slice0_set: "set (slice0 xs n) \<subseteq> set xs"
  by (auto simp add: slice0_def dest: in_set_takeD)

lemma slice0_distinct: "distinct xs \<Longrightarrow> distinct (slice0 xs n)"
  by (simp add: slice0_def)

lemma fix_indexes_aux:
  assumes "distinct xs" "valid_refs h xs" "distinct is" "set is \<subseteq> {..<length xs}"
  shows "length (foldl (\<lambda>h1 index.
              store h1 (xs ! index)
                (set_prop (deref h1 (xs ! index)) ''_index'' (JNum (int index + 1)))) h is)
           = length h \<and>
         (\<forall>i\<in>set is. get_prop (deref (foldl (\<lambda>h1 index.
              store h1 (xs ! index)
                (set_prop (deref h1 (xs ! index)) ''_index'' (JNum (int index + 1)))) h is)
              (xs ! i)) ''_index'' = JNum (int i + 1))"
  using assms(3,4)
proof (induction "is" rule: rev_induct)
  case Nil
  then show ?case by simp
next
  case (snoc i "is")
  let ?f = "\<lambda>h1 index. store h1 (xs ! index)
                (set_prop (deref h1 (xs ! index)) ''_index'' (JNum (int index + 1)))"
  let ?h = "foldl ?f h is"
  have IH: "length ?h = length h"
    "\<forall>j\<in>set is. get_prop (deref ?h (xs ! j)) ''_index'' = JNum (int j + 1)"
    using snoc by simp_all
  have i: "i < length xs" "i \<notin> set is" using snoc.prems by auto
  have xi: "xs ! i < length ?h" using assms(2) i(1) IH(1) by (simp add: valid_refs_def)
  have other: "xs ! j \<noteq> xs ! i" if "j \<in> set is" for j
  proof -
    have "j < length xs" "j \<noteq> i" using that snoc.prems i(2) by auto
    with assms(1) i(1) show ?thesis by (simp add: nth_eq_iff_index_eq)
  qed
  have "get_prop (deref (?f ?h i) (xs ! j)) ''_index'' = JNum (int j + 1)" if "j \<in> set is" for j
    using other [OF that] IH(2) that by (simp add: deref_store_other)
  moreover have "get_prop (deref (?f ?h i) (xs ! i)) ''_index'' = JNum (int i + 1)"
    using xi by (simp add: deref_store_same)
  moreover have "length (?f ?h i) = length h" using IH(1) by (simp add: store_def)
  ultimately show ?case by simp
qed

lemma fix_indexes_ok:
  assumes "distinct xs" "valid_refs h xs"
  shows "indices_ok (fix_indexes h xs) xs"
proof -
  have "distinct [0..<length xs]" "set [0..<length xs] \<subseteq> {..<length xs}" by auto
  from fix_indexes_aux [OF assms this] show ?thesis
    by (simp add: indices_ok_def fix_indexes_def)
qed

lemma length_fix_indexes: "length (fix_indexes h xs) = length h"
proof -
  have "length (foldl (\<lambda>h1 index.
              store h1 (xs ! index)
                (set_prop (deref h1 (xs ! index)) ''_index'' (JNum (int index + 1)))) h is)
           = length h" for "is"
    by (induction "is" rule: rev_induct) (simp_all add: store_def)
  then show ?thesis by (simp add: fix_indexes_def)
qed

lemma matched_step_returns_columns_ok:
  "matched_step md5 flds oh s m = Inr s' \<Longrightarrow> columns_ok flds"
proof -
  assume a: "matched_step md5 flds oh s m = Inr s'"
  obtain h nd dl where s: "s = (h, nd, dl)" by (cases s) auto
  from a obtain c where "clean_row flds m = Inr c"
    by (cases "clean_row flds m") (simp_all add: s matched_step_def bind_err_def)
  then show ?thesis by (rule clean_row_returns_columns_ok)
qed

lemma matched_loop_returns_columns_ok:
  assumes "forEach (matched_step md5 flds oh) ms s = Inr s'" "ms \<noteq> []"
  shows "columns_ok flds"
proof -
  obtain m ms' where ms: "ms = m # ms'" using assms(2) by (cases ms) auto
  from assms(1) obtain s1 where "matched_step md5 flds oh s m = Inr s1"
    by (cases "matched_step md5 flds oh s m") (simp_all add: ms bind_err_def)
  then show ?thesis by (rule matched_step_returns_columns_ok)
qed

lemma rows_distinct_initial:
  "distinct xs \<Longrightarrow> valid_refs h xs \<Longrightarrow> rows_distinct h (map Some xs)"
  by (simp add: rows_distinct_def compact_map_Some)

lemma supplied_indices:
  assumes r: "getDiffFromSupplied md cmp matchRows client h currentData ns query prsd params
                = Inr (h', Some (d, data))"
    and nr: "\<not> refuses md matchRows h currentData ns prsd params"
    and dist: "distinct currentData" and v: "valid_refs h currentData"
  shows "indices_ok h' data"
proof -
  let ?oh = "map (row_hash h) currentData"
  obtain allRows where f: "flattenNotifications ns = Inr allRows"
    using r by (cases "flattenNotifications ns")
      (simp_all add: getDiffFromSupplied_def bind_err_def)
  obtain matched where m: "matchRows allRows prsd params = Inr matched"
    using r by (cases "matchRows allRows prsd params")
      (simp_all add: getDiffFromSupplied_def bind_err_def f)
  have ne: "matched \<noteq> []"
    using r by (auto simp add: getDiffFromSupplied_def bind_err_def f m)
  obtain s where loop: "forEach (matched_step md (q_fields prsd) ?oh) matched
       (h, map Some currentData, False) = Inr s"
    using r ne
    by (cases "forEach (matched_step md (q_fields prsd) ?oh) matched
       (h, map Some currentData, False)")
      (simp_all add: getDiffFromSupplied_def bind_err_def f m Let_def)
  obtain h1 nd dl where s: "s = (h1, nd, dl)" by (cases s) auto
  have ok: "columns_ok (q_fields prsd)"
    by (rule matched_loop_returns_columns_ok [OF loop ne])
  obtain g nd' where loop':
    "forEach (matched_step md (q_fields prsd) ?oh) matched (h, map Some currentData, False) =
     Inr (h @ g, nd',
          False \<or> (\<exists>m\<in>set matched. causes_deletion md (q_fields prsd) ?oh m))"
    using matched_loop_ok [OF ok] by blast
  have dl: "dl = (\<exists>m\<in>set matched. causes_deletion md (q_fields prsd) ?oh m)"
    using loop loop' by (simp add: s)
  have norefuse: "\<not> (dl \<and> q_limit prsd = Some (int (length currentData)))"
    using nr by (simp add: refuses_def f m dl)
  have rd: "rows_distinct h1 nd"
    by (rule matched_loop_rows_distinct [OF loop [unfolded s] rows_distinct_initial [OF dist v]])
  let ?nd2 = "
    (case q_order prsd of
       None \<Rightarrow> compact nd
     | Some orderings \<Rightarrow>
         sortByOrder cmp h1 (compact nd) (map o_value orderings)
           (map (\<lambda>ordering. toUpperCase (o_direction ordering) = ''ASC'') orderings))"
  let ?nd3 = "(case q_limit prsd of None \<Rightarrow> ?nd2 | Some n \<Rightarrow> slice0 ?nd2 n)"
  have eq: "h' = fix_indexes h1 ?nd3 \<and> data = ?nd3"
    using r ne norefuse
    by (auto simp add: getDiffFromSupplied_def bind_err_def f m Let_def loop s
        split: if_splits option.splits)
  have d2: "distinct ?nd2" "set ?nd2 = set (compact nd)"
    using rd by (auto simp add: rows_distinct_def sortByOrder_distinct sortByOrder_set
        split: option.splits)
  have d3: "distinct ?nd3" "set ?nd3 \<subseteq> set (compact nd)"
    using d2 slice0_set [of ?nd2] by (auto simp add: slice0_distinct split: option.splits)
  have v3: "valid_refs h1 ?nd3"
    using rd d3(2) by (auto simp add: rows_distinct_def valid_refs_def)
  show ?thesis using eq fix_indexes_ok [OF d3(1) v3] by simp
qed




section \<open>Claims on result sets\<close>




text \<open>
  Claim C5, with the differ as the specification describes it. The claim says that every
  data array that \<^verbatim>\<open>getResultSetDiff\<close> returns is numbered 1..N in order. The old rows are
  a, b, b, numbered 1, 2, 3, and the query now gives b, b (the statement of
  \<^verbatim>\<open>getResultSetDiff\<close> gives a row whose hash is among the old hashes with its \<^verbatim>\<open>_hash\<close>
  alone, the other columns null). The differ removes position 1 and moves position 2 to
  position 1; \<^verbatim>\<open>applyDiff\<close> leaves the old row at position 3 untouched, and the data
  returned are two rows with \<^verbatim>\<open>_index\<close> 1 and 3.
\<close>

theorem requery_indices_not_contiguous:
  "valid_refs
     [[(''name'', JStr ''a''), (''_hash'', JStr ''ha''), (''_index'', JNum 1)],
      [(''name'', JStr ''b''), (''_hash'', JStr ''hb''), (''_index'', JNum 2)],
      [(''name'', JStr ''b''), (''_hash'', JStr ''hb''), (''_index'', JNum 3)]]
     [0, 1, 2] \<and>
   indices_ok
     [[(''name'', JStr ''a''), (''_hash'', JStr ''ha''), (''_index'', JNum 1)],
      [(''name'', JStr ''b''), (''_hash'', JStr ''hb''), (''_index'', JNum 2)],
      [(''name'', JStr ''b''), (''_hash'', JStr ''hb''), (''_index'', JNum 3)]]
     [0, 1, 2] \<and>
   getResultSetDiff
     (\<lambda>q hs ps.
        Inr [[(''_added'', JNull), (''name'', JNull), (''_hash'', JStr ''hb''),
              (''_index'', JNull)],
             [(''_added'', JNull), (''name'', JNull), (''_hash'', JStr ''hb''),
              (''_index'', JNull)]])
     [[(''name'', JStr ''a''), (''_hash'', JStr ''ha''), (''_index'', JNum 1)],
      [(''name'', JStr ''b''), (''_hash'', JStr ''hb''), (''_index'', JNum 2)],
      [(''name'', JStr ''b''), (''_hash'', JStr ''hb''), (''_index'', JNum 3)]]
     [0, 1, 2] ''SELECT name FROM t'' []
     = Inr ([[(''name'', JStr ''a''), (''_hash'', JStr ''ha''), (''_index'', JNum 1)],
             [(''name'', JStr ''b''), (''_hash'', JStr ''hb''), (''_index'', JNum 1)],
             [(''name'', JStr ''b''), (''_hash'', JStr ''hb''), (''_index'', JNum 3)],
             [(''_added'', JNull), (''name'', JNull), (''_hash'', JStr ''hb''),
              (''_index'', JNull)],
             [(''_added'', JNull), (''name'', JNull), (''_hash'', JStr ''hb''),
              (''_index'', JNull)]],
            Some (\<lparr>removed = Some [Removed 1], moved = Some [Moved 2 1],
                    copied = Some [], added = Some []\<rparr>,
                  [1, 2])) \<and>
   \<not> indices_ok
     [[(''name'', JStr ''a''), (''_hash'', JStr ''ha''), (''_index'', JNum 1)],
      [(''name'', JStr ''b''), (''_hash'', JStr ''hb''), (''_index'', JNum 1)],
      [(''name'', JStr ''b''), (''_hash'', JStr ''hb''), (''_index'', JNum 3)],
      [(''_added'', JNull), (''name'', JNull), (''_hash'', JStr ''hb''),
       (''_index'', JNull)],
      [(''_added'', JNull), (''name'', JNull), (''_hash'', JStr ''hb''),
       (''_index'', JNull)]]
     [1, 2]"
proof -
  let ?h = "[[(''name'', JStr ''a''), (''_hash'', JStr ''ha''), (''_index'', JNum 1)],
             [(''name'', JStr ''b''), (''_hash'', JStr ''hb''), (''_index'', JNum 2)],
             [(''name'', JStr ''b''), (''_hash'', JStr ''hb''), (''_index'', JNum 3)]]"
  let ?rows = "[[(''_added'', JNull), (''name'', JNull), (''_hash'', JStr ''hb''),
                 (''_index'', JNull)],
                [(''_added'', JNull), (''name'', JNull), (''_hash'', JStr ''hb''),
                 (''_index'', JNull)]]"
  let ?res = "[[(''name'', JStr ''a''), (''_hash'', JStr ''ha''), (''_index'', JNum 1)],
               [(''name'', JStr ''b''), (''_hash'', JStr ''hb''), (''_index'', JNum 1)],
               [(''name'', JStr ''b''), (''_hash'', JStr ''hb''), (''_index'', JNum 3)]] @ ?rows"
  have v: "valid_refs ?h [0, 1, 2]" by (simp add: valid_refs_def)
  have io: "indices_ok ?h [0, 1, 2]"
    by (simp add: indices_ok_def deref_def get_prop_def less_Suc_eq)
  have g: "getResultSetDiff (\<lambda>q hs ps. Inr ?rows) ?h [0, 1, 2] ''SELECT name FROM t'' []
     = Inr (?res, Some (\<lparr>removed = Some [Removed 1], moved = Some [Moved 2 1],
                          copied = Some [], added = Some []\<rparr>, [1, 2]))"
    by code_simp
  have "get_prop (deref ?res ([1, 2] ! 1)) ''_index'' \<noteq> JNum (int 1 + 1)"
    by (simp add: deref_def get_prop_def)
  then have n: "\<not> indices_ok ?res [1, 2]"
    unfolding indices_ok_def by (metis One_nat_def length_Cons lessI list.size(3))
  from v io g n show ?thesis by simp
qed

text \<open>
  Claim C5, amended. The data that \<^verbatim>\<open>getDiffFromSupplied\<close> returns on its incremental path
  are numbered 1..N in order, in the store it returns, whenever the rows of the current
  data are distinct objects. The data that \<^verbatim>\<open>getResultSetDiff\<close> returns are numbered 1..N
  in order when the current data are, no two rows of the current data have the same
  hash, and the rows of the query whose hash is new carry their row number as \<^verbatim>\<open>_index\<close>;
  the call then returns. (On the refusal branch \<^verbatim>\<open>getDiffFromSupplied\<close> returns what
  \<^verbatim>\<open>getResultSetDiff\<close> returns.)
\<close>

theorem contiguous_indices:
  "(\<not> refuses md matchRows h currentData ns prsd params \<and>
    distinct currentData \<and> valid_refs h currentData \<and>
    getDiffFromSupplied md cmp matchRows client h currentData ns query prsd params
      = Inr (h', Some (d, data))
      \<longrightarrow> indices_ok h' data) \<and>
   (client query (map (row_hash h) currentData) params = Inr rows \<and>
    valid_refs h currentData \<and> indices_ok h currentData \<and>
    distinct (map (row_hash h) currentData) \<and>
    added_indexed (h @ rows) currentData [length h..<length h + length rows]
      \<longrightarrow> (\<exists>h2 r. getResultSetDiff client h currentData query params = Inr (h2, r) \<and>
             (case r of None \<Rightarrow> True | Some dd \<Rightarrow> indices_ok h2 (snd dd))))"
proof (intro conjI impI)
  assume "\<not> refuses md matchRows h currentData ns prsd params \<and>
    distinct currentData \<and> valid_refs h currentData \<and>
    getDiffFromSupplied md cmp matchRows client h currentData ns query prsd params
      = Inr (h', Some (d, data))"
  then have a: "\<not> refuses md matchRows h currentData ns prsd params"
    "distinct currentData" "valid_refs h currentData"
    "getDiffFromSupplied md cmp matchRows client h currentData ns query prsd params
      = Inr (h', Some (d, data))" by simp_all
  show "indices_ok h' data"
    by (rule supplied_indices [where md = md and matchRows = matchRows and cmp = cmp
          and client = client and query = query, OF a(4) a(1) a(2) a(3)])
next
  assume "client query (map (row_hash h) currentData) params = Inr rows \<and>
    valid_refs h currentData \<and> indices_ok h currentData \<and>
    distinct (map (row_hash h) currentData) \<and>
    added_indexed (h @ rows) currentData [length h..<length h + length rows]"
  then have b: "client query (map (row_hash h) currentData) params = Inr rows"
    "valid_refs h currentData" "indices_ok h currentData"
    "distinct (map (row_hash h) currentData)"
    "added_indexed (h @ rows) currentData [length h..<length h + length rows]" by simp_all
  show "\<exists>h2 r. getResultSetDiff client h currentData query params = Inr (h2, r) \<and>
             (case r of None \<Rightarrow> True | Some dd \<Rightarrow> indices_ok h2 (snd dd))"
    by (rule getResultSetDiff_indices [where client = client and query = query
          and params = params, OF b(1) b(2) b(4) b(3) b(5)])
qed

theorem contiguous_indices_witness:
  "\<not> refuses
       (\<lambda>ob. if get_prop ob ''id'' = JNum 1 then ''h1''
              else if get_prop ob ''id'' = JNum 2 then ''h2'' else ''h3'')
       (\<lambda>rows p ps. Inr rows)
       [[(''id'', JNum 1), (''_hash'', JStr ''h1''), (''_index'', JNum 1)],
        [(''id'', JNum 2), (''_hash'', JStr ''h2''), (''_index'', JNum 2)]]
       [0, 1]
       [\<lparr>p_op = JStr ''DELETE'', p_data = Some [[(''id'', JNum 1)]],
          p_new_data = None, p_old_data = None\<rparr>,
        \<lparr>p_op = JStr ''INSERT'', p_data = Some [[(''id'', JNum 3)]],
          p_new_data = None, p_old_data = None\<rparr>]
       \<lparr>q_fields = [Star], q_order = None, q_limit = None\<rparr> [] \<and>
   distinct [0 :: nat, 1] \<and>
   valid_refs
     [[(''id'', JNum 1), (''_hash'', JStr ''h1''), (''_index'', JNum 1)],
      [(''id'', JNum 2), (''_hash'', JStr ''h2''), (''_index'', JNum 2)]]
     [0, 1] \<and>
   getDiffFromSupplied
     (\<lambda>ob. if get_prop ob ''id'' = JNum 1 then ''h1''
            else if get_prop ob ''id'' = JNum 2 then ''h2'' else ''h3'')
     (\<lambda>a b. 0) (\<lambda>rows p ps. Inr rows)
     (\<lambda>q hs ps.
        Inr [[(''_added'', JNull), (''id'', JNull), (''_hash'', JStr ''h2''),
              (''_index'', JNull)],
             [(''_added'', JNum 1), (''id'', JNum 3), (''_hash'', JStr ''h3''),
              (''_index'', JNum 2)]])
     [[(''id'', JNum 1), (''_hash'', JStr ''h1''), (''_index'', JNum 1)],
      [(''id'', JNum 2), (''_hash'', JStr ''h2''), (''_index'', JNum 2)]]
     [0, 1]
     [\<lparr>p_op = JStr ''DELETE'', p_data = Some [[(''id'', JNum 1)]],
        p_new_data = None, p_old_data = None\<rparr>,
      \<lparr>p_op = JStr ''INSERT'', p_data = Some [[(''id'', JNum 3)]],
        p_new_data = None, p_old_data = None\<rparr>]
     ''SELECT * FROM t''
     \<lparr>q_fields = [Star], q_order = None, q_limit = None\<rparr> []
     = Inr ([[(''id'', JNum 1), (''_hash'', JStr ''h1''), (''_index'', JNum 1)],
             [(''id'', JNum 2), (''_hash'', JStr ''h2''), (''_index'', JNum 1)],
             [(''id'', JNum 3), (''_hash'', JStr ''h3''), (''_added'', JNum 1),
              (''_index'', JNum 2)]],
            Some (\<lparr>removed = Some [Removed 1], moved = Some [Moved 2 1],
                    copied = Some [], added = Some [2]\<rparr>,
                  [1, 2])) \<and>
   indices_ok
     [[(''id'', JNum 1), (''_hash'', JStr ''h1''), (''_index'', JNum 1)],
      [(''id'', JNum 2), (''_hash'', JStr ''h2''), (''_index'', JNum 1)],
      [(''id'', JNum 3), (''_hash'', JStr ''h3''), (''_added'', JNum 1),
       (''_index'', JNum 2)]]
     [1, 2] \<and>
   indices_ok
     [[(''id'', JNum 1), (''_hash'', JStr ''h1''), (''_index'', JNum 1)],
      [(''id'', JNum 2), (''_hash'', JStr ''h2''), (''_index'', JNum 2)]]
     [0, 1] \<and>
   distinct (map (row_hash
     [[(''id'', JNum 1), (''_hash'', JStr ''h1''), (''_index'', JNum 1)],
      [(''id'', JNum 2), (''_hash'', JStr ''h2''), (''_index'', JNum 2)]]) [0, 1]) \<and>
   added_indexed
     ([[(''id'', JNum 1), (''_hash'', JStr ''h1''), (''_index'', JNum 1)],
       [(''id'', JNum 2), (''_hash'', JStr ''h2''), (''_index'', JNum 2)]] @
      [[(''_added'', JNull), (''id'', JNull), (''_hash'', JStr ''h2''),
        (''_index'', JNull)],
       [(''_added'', JNum 1), (''id'', JNum 3), (''_hash'', JStr ''h3''),
        (''_index'', JNum 2)]])
     [0, 1] [2, 3] \<and>
   getResultSetDiff
     (\<lambda>q hs ps.
        Inr [[(''_added'', JNull), (''id'', JNull), (''_hash'', JStr ''h2''),
              (''_index'', JNull)],
             [(''_added'', JNum 1), (''id'', JNum 3), (''_hash'', JStr ''h3''),
              (''_index'', JNum 2)]])
     [[(''id'', JNum 1), (''_hash'', JStr ''h1''), (''_index'', JNum 1)],
      [(''id'', JNum 2), (''_hash'', JStr ''h2''), (''_index'', JNum 2)]]
     [0, 1] ''SELECT * FROM t'' []
     = Inr ([[(''id'', JNum 1), (''_hash'', JStr ''h1''), (''_index'', JNum 1)],
             [(''id'', JNum 2), (''_hash'', JStr ''h2''), (''_index'', JNum 1)],
             [(''_added'', JNull), (''id'', JNull), (''_hash'', JStr ''h2''),
              (''_index'', JNull)],
             [(''_added'', JNum 1), (''id'', JNum 3), (''_hash'', JStr ''h3''),
              (''_index'', JNum 2)]],
            Some (\<lparr>removed = Some [Removed 1], moved = Some [Moved 2 1],
                    copied = Some [], added = Some [3]\<rparr>,
                  [1, 3])) \<and>
   indices_ok
     [[(''id'', JNum 1), (''_hash'', JStr ''h1''), (''_index'', JNum 1)],
      [(''id'', JNum 2), (''_hash'', JStr ''h2''), (''_index'', JNum 1)],
      [(''_added'', JNull), (''id'', JNull), (''_hash'', JStr ''h2''),
       (''_index'', JNull)],
      [(''_added'', JNum 1), (''id'', JNum 3), (''_hash'', JStr ''h3''),
       (''_index'', JNum 2)]]
     [1, 3]"
proof -
  let ?md = "\<lambda>ob. if get_prop ob ''id'' = JNum 1 then ''h1''
                  else if get_prop ob ''id'' = JNum 2 then ''h2'' else ''h3''"
  let ?match = "\<lambda>(rows :: obj list) (p :: parsed) (ps :: jsval list).
                  Inr rows :: error + obj list"
  let ?cmp = "\<lambda>(a :: jsval) (b :: jsval). 0 :: int"
  let ?h = "[[(''id'', JNum 1), (''_hash'', JStr ''h1''), (''_index'', JNum 1)],
             [(''id'', JNum 2), (''_hash'', JStr ''h2''), (''_index'', JNum 2)]]"
  let ?ns = "[\<lparr>p_op = JStr ''DELETE'', p_data = Some [[(''id'', JNum 1)]],
                p_new_data = None, p_old_data = None\<rparr>,
              \<lparr>p_op = JStr ''INSERT'', p_data = Some [[(''id'', JNum 3)]],
                p_new_data = None, p_old_data = None\<rparr>]"
  let ?prsd = "\<lparr>q_fields = [Star], q_order = None, q_limit = None\<rparr>"
  let ?rows = "[[(''_added'', JNull), (''id'', JNull), (''_hash'', JStr ''h2''),
                 (''_index'', JNull)],
                [(''_added'', JNum 1), (''id'', JNum 3), (''_hash'', JStr ''h3''),
                 (''_index'', JNum 2)]]"
  let ?client = "\<lambda>(q :: string) (hs :: jsval list) (ps :: jsval list).
                   Inr ?rows :: error + obj list"
  let ?s1 = "[[(''id'', JNum 1), (''_hash'', JStr ''h1''), (''_index'', JNum 1)],
              [(''id'', JNum 2), (''_hash'', JStr ''h2''), (''_index'', JNum 1)],
              [(''id'', JNum 3), (''_hash'', JStr ''h3''), (''_added'', JNum 1),
               (''_index'', JNum 2)]]"
  let ?d1 = "\<lparr>removed = Some [Removed 1], moved = Some [Moved 2 1],
              copied = Some [], added = Some [2]\<rparr>"
  let ?s2 = "[[(''id'', JNum 1), (''_hash'', JStr ''h1''), (''_index'', JNum 1)],
              [(''id'', JNum 2), (''_hash'', JStr ''h2''), (''_index'', JNum 1)]] @ ?rows"
  let ?d2 = "\<lparr>removed = Some [Removed 1], moved = Some [Moved 2 1],
              copied = Some [], added = Some [3]\<rparr>"
  have nr: "\<not> refuses ?md ?match ?h [0, 1] ?ns ?prsd []"
    by (simp add: refuses_def split: sum.splits)
  have di: "distinct [0 :: nat, 1]" by simp
  have v: "valid_refs ?h [0, 1]" by (simp add: valid_refs_def)
  have s: "getDiffFromSupplied ?md ?cmp ?match ?client ?h [0, 1] ?ns ''SELECT * FROM t''
             ?prsd [] = Inr (?s1, Some (?d1, [1, 2]))"
    by code_simp
  have io: "indices_ok ?h [0, 1]"
    by (simp add: indices_ok_def deref_def get_prop_def less_Suc_eq)
  have dh: "distinct (map (row_hash ?h) [0, 1])"
    by (simp add: row_hash_def deref_def get_prop_def)
  have ai: "added_indexed (?h @ ?rows) [0, 1] [2, 3]"
    by (simp add: added_indexed_def is_added_def row_hash_def deref_def get_prop_def
        less_Suc_eq)
  have e: "[length ?h..<length ?h + length ?rows] = [2, 3]" by code_simp
  have ai': "added_indexed (?h @ ?rows) [0, 1] [length ?h..<length ?h + length ?rows]"
    unfolding e by (rule ai)
  have q: "?client ''SELECT * FROM t'' (map (row_hash ?h) [0, 1]) [] = Inr ?rows" by simp
  have g: "getResultSetDiff ?client ?h [0, 1] ''SELECT * FROM t'' []
             = Inr (?s2, Some (?d2, [1, 3]))"
    by code_simp
  note ci = contiguous_indices [where md = ?md and matchRows = ?match and h = ?h
      and currentData = "[0, 1]" and ns = ?ns and prsd = ?prsd and params = "[]"
      and cmp = ?cmp and client = ?client and query = "''SELECT * FROM t''"
      and h' = ?s1 and d = ?d1 and data = "[1, 2]" and rows = ?rows]
  from ci nr di v s have a: "indices_ok ?s1 [1, 2]" by blast
  from ci q v io dh ai'
  obtain h2 r where r: "getResultSetDiff ?client ?h [0, 1] ''SELECT * FROM t'' [] = Inr (h2, r)"
    "case r of None \<Rightarrow> True | Some dd \<Rightarrow> indices_ok h2 (snd dd)"
    by blast
  from r(1) g have "h2 = ?s2" "r = Some (?d2, [1, 3])" by simp_all
  with r(2) have b: "indices_ok ?s2 [1, 3]" by simp
  from nr di v s a io dh ai g b show ?thesis by simp
qed

end
